theory Spec2Isabelle
  imports Complex_Main
begin

section \<open>JavaScript numbers\<close>

text \<open>
  The plugin computes with JavaScript numbers. In the model of the estimator a finite
  number is an exact real. The arithmetic of IEEE doubles is this arithmetic followed by
  a rounding, which the model of the estimator leaves out: sums and differences of times
  in whole milliseconds are the same in both, quotients and products differ in the last
  bits, and a quotient that is not zero is taken not to underflow to zero. What the
  rounding does to the fields that the interpolation computes is studied apart, with
  \<open>fl\<close> below. The three non-finite values are kept, since a division by a zero time
  gap produces them and JavaScript does not raise on them. Zero is unsigned: the only divisors that can be zero here are
  differences \<open>a - a\<close>, which are \<open>+0\<close>. A property that is \<open>undefined\<close> is only ever
  used in arithmetic by this program, where it converts to \<open>NaN\<close>, so an absent
  coordinate is represented by \<open>NaN\<close>.
\<close>

datatype jsnum = Fin real | PInf | MInf | NaN

fun js_neg :: "jsnum \<Rightarrow> jsnum" where
  "js_neg (Fin a) = Fin (- a)"
| "js_neg PInf = MInf"
| "js_neg MInf = PInf"
| "js_neg NaN = NaN"

fun js_add :: "jsnum \<Rightarrow> jsnum \<Rightarrow> jsnum" where
  "js_add (Fin a) (Fin b) = Fin (a + b)"
| "js_add NaN _ = NaN"
| "js_add _ NaN = NaN"
| "js_add PInf MInf = NaN"
| "js_add MInf PInf = NaN"
| "js_add PInf _ = PInf"
| "js_add _ PInf = PInf"
| "js_add MInf _ = MInf"
| "js_add _ MInf = MInf"

definition js_sub :: "jsnum \<Rightarrow> jsnum \<Rightarrow> jsnum" where
  "js_sub a b = js_add a (js_neg b)"

fun js_mul :: "jsnum \<Rightarrow> jsnum \<Rightarrow> jsnum" where
  "js_mul (Fin a) (Fin b) = Fin (a * b)"
| "js_mul NaN _ = NaN"
| "js_mul _ NaN = NaN"
| "js_mul PInf (Fin b) = (if b = 0 then NaN else if 0 < b then PInf else MInf)"
| "js_mul MInf (Fin b) = (if b = 0 then NaN else if 0 < b then MInf else PInf)"
| "js_mul (Fin a) PInf = (if a = 0 then NaN else if 0 < a then PInf else MInf)"
| "js_mul (Fin a) MInf = (if a = 0 then NaN else if 0 < a then MInf else PInf)"
| "js_mul PInf PInf = PInf"
| "js_mul PInf MInf = MInf"
| "js_mul MInf PInf = MInf"
| "js_mul MInf MInf = PInf"

fun js_div :: "jsnum \<Rightarrow> jsnum \<Rightarrow> jsnum" where
  "js_div (Fin a) (Fin b) =
     (if b = 0 then (if a = 0 then NaN else if 0 < a then PInf else MInf)
      else Fin (a / b))"
| "js_div NaN _ = NaN"
| "js_div _ NaN = NaN"
| "js_div (Fin a) PInf = Fin 0"
| "js_div (Fin a) MInf = Fin 0"
| "js_div PInf (Fin b) = (if 0 \<le> b then PInf else MInf)"
| "js_div MInf (Fin b) = (if 0 \<le> b then MInf else PInf)"
| "js_div PInf PInf = NaN"
| "js_div PInf MInf = NaN"
| "js_div MInf PInf = NaN"
| "js_div MInf MInf = NaN"

fun js_abs :: "jsnum \<Rightarrow> jsnum" where
  "js_abs (Fin a) = Fin \<bar>a\<bar>"
| "js_abs PInf = PInf"
| "js_abs MInf = PInf"
| "js_abs NaN = NaN"

text \<open>The comparison \<open>a < b\<close>; it is false as soon as one side is \<open>NaN\<close>.\<close>

fun js_lt :: "jsnum \<Rightarrow> jsnum \<Rightarrow> bool" where
  "js_lt (Fin a) (Fin b) = (a < b)"
| "js_lt NaN _ = False"
| "js_lt _ NaN = False"
| "js_lt MInf MInf = False"
| "js_lt MInf _ = True"
| "js_lt PInf _ = False"
| "js_lt (Fin a) PInf = True"
| "js_lt (Fin a) MInf = False"

definition js_gt :: "jsnum \<Rightarrow> jsnum \<Rightarrow> bool" where
  "js_gt a b = js_lt b a"

text \<open>\<open>Math.round\<close>: the nearest integer, a half rounding up.\<close>

fun Math_round :: "jsnum \<Rightarrow> jsnum" where
  "Math_round (Fin a) = Fin (of_int \<lfloor>a + 1 / 2\<rfloor>)"
| "Math_round v = v"

section \<open>Samples, buffers and the velocity result\<close>

text \<open>
  A datum is the object \<open>{x, y, time}\<close> built by the mousemove handler. Its \<open>time\<close> is a
  \<open>Date\<close> (read as its millisecond value by every subtraction and comparison) until
  \<open>interpolateTrailingEdge\<close> overwrites it with a number.
\<close>

record sample =
  x :: jsnum
  y :: jsnum
  time :: jsnum

text \<open>
  A slot of the array is \<open>None\<close> when it is a hole or \<open>undefined\<close>. Every slot that is
  written holds an object of its own (a fresh datum per mousemove, a fresh copy for the
  anchor), so an object is identified by the index of the slot that holds it: a
  \<open>tagged\<close> element of the compacted array is the pair of that index and the object's
  current fields.
\<close>

type_synonym slot = "sample option"
type_synonym tagged = "nat \<times> sample"

text \<open>
  The write cursor. It is \<open>NaNIdx\<close> after \<open>(i + 1) % len\<close> with \<open>len = 0\<close>; an array
  access at \<open>NaN\<close> reads and writes the property named \<open>"NaN"\<close>, which is no element
  of the array.
\<close>

datatype cursor = Idx nat | NaNIdx

record velocity =
  Vx :: jsnum
  Vy :: jsnum

datatype error = TypeError | RangeError

definition zero_velocity :: velocity where
  "zero_velocity = \<lparr>Vx = Fin 0, Vy = Fin 0\<rparr>"

section \<open>Array primitives\<close>

text \<open>Reading \<open>a[k]\<close>: \<open>undefined\<close> beyond the end.\<close>

definition get_at :: "'a option list \<Rightarrow> nat \<Rightarrow> 'a option" where
  "get_at a k = (if k < length a then a ! k else None)"

text \<open>
  The array indices are the integers below \<open>2^32 - 1\<close>, and an array has at most
  \<open>2^32 - 1\<close> elements. Writing \<open>a[k] = v\<close> at an array index beyond the end makes
  the array grow, leaving holes. At \<open>2^32 - 1\<close> and above the assignment sets a property
  of the object and no element of the array changes.
\<close>

definition is_array_index :: "nat \<Rightarrow> bool" where
  "is_array_index k = (k < 2 ^ 32 - 1)"

definition set_at :: "'a option list \<Rightarrow> nat \<Rightarrow> 'a \<Rightarrow> 'a option list" where
  "set_at a k v =
     (if is_array_index k
      then (if k < length a then a[k := Some v]
            else a @ replicate (k - length a) None @ [Some v])
      else a)"

text \<open>\<open>buffer.filter(function (x) { return x !== undefined })\<close>, keeping the slot index
  of each object that survives.\<close>

fun filter_from :: "nat \<Rightarrow> slot list \<Rightarrow> tagged list" where
  "filter_from k [] = []"
| "filter_from k (None # a) = filter_from (Suc k) a"
| "filter_from k (Some s # a) = (k, s) # filter_from (Suc k) a"

definition filter_defined :: "slot list \<Rightarrow> tagged list" where
  "filter_defined a = filter_from 0 a"

text \<open>
  The comparator passed to \<open>sort\<close>. \<open>a.time === b.time\<close> compares two \<open>Date\<close> objects
  by identity, and every sample has a \<open>Date\<close> of its own, so it holds only when a sample
  is compared with itself.
\<close>

definition compare_time :: "tagged \<Rightarrow> tagged \<Rightarrow> int" where
  "compare_time a b =
     (if fst a = fst b then 0
      else if js_gt (time (snd a)) (time (snd b)) then - 1 else 1)"

text \<open>
  \<open>Array.prototype.sort\<close> as a stable insertion sort: an element is placed after the
  elements that the comparator puts strictly before it. Where the comparator is
  consistent (pairwise distinct finite times) the result is the same for every sort.
\<close>

fun insert_sorted :: "('a \<Rightarrow> 'a \<Rightarrow> int) \<Rightarrow> 'a \<Rightarrow> 'a list \<Rightarrow> 'a list" where
  "insert_sorted cmp a [] = [a]"
| "insert_sorted cmp a (b # bs) =
     (if cmp b a < 0 then b # insert_sorted cmp a bs else a # b # bs)"

fun array_sort :: "('a \<Rightarrow> 'a \<Rightarrow> int) \<Rightarrow> 'a list \<Rightarrow> 'a list" where
  "array_sort cmp [] = []"
| "array_sort cmp (a # as) = insert_sorted cmp a (array_sort cmp as)"

text \<open>Reading element \<open>k\<close> of the compacted (dense) array.\<close>

definition elem_at :: "'a list \<Rightarrow> nat \<Rightarrow> 'a option" where
  "elem_at a k = (if k < length a then Some (a ! k) else None)"

section \<open>The estimator\<close>

text \<open>
  \<open>i = (i === 0) ? buffer.length : i; buffer[i] = $.extend({}, buffer[i - 1]);
  buffer[i].time = new Date();\<close>
  The clock reading \<open>new Date()\<close> is the parameter \<open>now\<close> (milliseconds).
  \<open>$.extend({}, undefined)\<close> is the empty object. With a \<open>NaN\<close> cursor both accesses
  go to the property \<open>"NaN"\<close> and no element of the array changes.
\<close>

definition anchor_index :: "slot list \<Rightarrow> nat \<Rightarrow> nat" where
  "anchor_index buffer i = (if i = 0 then length buffer else i)"

definition extend_copy :: "slot \<Rightarrow> sample" where
  "extend_copy src = (case src of None \<Rightarrow> \<lparr>x = NaN, y = NaN, time = NaN\<rparr> | Some s \<Rightarrow> s)"

definition anchor_sample :: "slot list \<Rightarrow> nat \<Rightarrow> real \<Rightarrow> sample" where
  "anchor_sample buffer i now =
     (extend_copy (if i = 0 then None else get_at buffer (i - 1))) \<lparr>time := Fin now\<rparr>"

definition write_anchor :: "slot list \<Rightarrow> cursor \<Rightarrow> real \<Rightarrow> slot list" where
  "write_anchor buffer c now =
     (case c of
        NaNIdx \<Rightarrow> buffer
      | Idx i0 \<Rightarrow>
          (let i = anchor_index buffer i0
           in set_at buffer i (anchor_sample buffer i now)))"

text \<open>
  The scan \<open>for (j = 1; j < buffer.length; j++)\<close> that stops at the first sample older
  than the window. The list argument holds the elements from index \<open>j\<close> on; the result is
  the final \<open>j\<close>. The loop's other variable, \<open>mintime\<close>, is overwritten right after the
  loop and is not modelled.
\<close>

fun scan :: "tagged list \<Rightarrow> jsnum \<Rightarrow> nat \<Rightarrow> nat" where
  "scan [] limit j = j"
| "scan (b # bs) limit j =
     (if js_lt (time (snd b)) limit then j else scan bs limit (Suc j))"

text \<open>
  \<open>interpolateTrailingEdge\<close> overwrites the fields of the object \<open>buffer[j]\<close> in place and
  returns that object; the model returns the array with element \<open>j\<close> updated. Reading a
  field of \<open>undefined\<close> raises \<open>TypeError\<close>.
\<close>

definition interpolateTrailingEdge ::
    "tagged list \<Rightarrow> nat \<Rightarrow> jsnum \<Rightarrow> jsnum \<Rightarrow> error + tagged list" where
  "interpolateTrailingEdge buffer j msec interpolation_threshold =
     (case elem_at buffer (j + 1) of
        None \<Rightarrow> Inr buffer
      | Some trailing \<Rightarrow>
          (case elem_at buffer j of
             None \<Rightarrow> Inl TypeError
           | Some mintime \<Rightarrow>
               if js_lt (js_sub (time (snd mintime)) (time (snd trailing)))
                    interpolation_threshold
               then
                 (case elem_at buffer 0 of
                    None \<Rightarrow> Inl TypeError
                  | Some mostrecent \<Rightarrow>
                      (let tmsec = js_sub (time (snd mostrecent)) msec;
                           miniwindow = js_sub (time (snd mintime)) (time (snd trailing));
                           w1 = js_sub (Fin 1)
                                  (js_div (js_abs (js_sub (time (snd mintime)) tmsec)) miniwindow);
                           w2 = js_sub (Fin 1)
                                  (js_div (js_abs (js_sub tmsec (time (snd trailing)))) miniwindow);
                           x' = js_add (js_mul w1 (x (snd mintime))) (js_mul w2 (x (snd trailing)));
                           y' = js_add (js_mul w1 (y (snd mintime))) (js_mul w2 (y (snd trailing)));
                           t' = js_add (js_mul w1 (time (snd mintime)))
                                  (js_mul w2 (time (snd trailing)))
                       in Inr (buffer[j := (fst mintime, \<lparr>x = x', y = y', time = t'\<rparr>)])))
               else Inr buffer))"

text \<open>The compacted array after the sort, and the index \<open>j - 1\<close> handed to
  \<open>interpolateTrailingEdge\<close>.\<close>

definition sorted_samples :: "slot list \<Rightarrow> cursor \<Rightarrow> real \<Rightarrow> tagged list" where
  "sorted_samples buffer c now = array_sort compare_time (filter_defined (write_anchor buffer c now))"

definition boundary_index :: "tagged list \<Rightarrow> jsnum \<Rightarrow> nat" where
  "boundary_index sbuf msec =
     scan (tl sbuf) (js_sub (time (snd (hd sbuf))) msec) 1 - 1"

text \<open>The objects of the original array after the estimator has run: each object of the
  sorted array is stored back in the slot that holds it.\<close>

fun write_back :: "tagged list \<Rightarrow> slot list \<Rightarrow> slot list" where
  "write_back [] a = a"
| "write_back ((k, s) # ts) a = write_back ts (a[k := Some s])"

text \<open>
  The last step of \<open>computeVelocity\<close> (from \<open>var elapsed\<close> on), on the fields that
  \<open>mostrecent\<close> and \<open>mintime\<close> have after the interpolation.
\<close>

definition elapsed_of :: "sample \<Rightarrow> sample \<Rightarrow> jsnum" where
  "elapsed_of mostrecent mintime = js_sub (time mostrecent) (time mintime)"

definition velocity_between :: "sample \<Rightarrow> sample \<Rightarrow> velocity" where
  "velocity_between mostrecent mintime =
     (let elapsed = elapsed_of mostrecent mintime
      in if elapsed = Fin 0 then zero_velocity
         else \<lparr>Vx = js_mul (js_div (js_sub (x mostrecent) (x mintime)) elapsed) (Fin 1000),
               Vy = js_mul (js_div (js_neg (js_sub (y mostrecent) (y mintime))) elapsed)
                      (Fin 1000)\<rparr>)"

text \<open>
  \<open>computeVelocity\<close>. The result is the velocity together with the state in which the
  call leaves the caller's array. \<open>mostrecent\<close> and \<open>mintime\<close> are read from the array
  after the interpolation: they are the same object when \<open>j - 1 = 0\<close>.
\<close>

definition computeVelocity ::
    "slot list \<Rightarrow> cursor \<Rightarrow> jsnum \<Rightarrow> real \<Rightarrow> error + (velocity \<times> slot list)" where
  "computeVelocity buffer c msec now =
     (let buffer1 = write_anchor buffer c now;
          sbuf = array_sort compare_time (filter_defined buffer1)
      in if length sbuf = 0 then Inr (zero_velocity, buffer1)
         else
           (let j = scan (tl sbuf) (js_sub (time (snd (hd sbuf))) msec) 1
            in case interpolateTrailingEdge sbuf (j - 1) msec (Fin 50) of
                 Inl e \<Rightarrow> Inl e
               | Inr sbuf' \<Rightarrow>
                   (case (elem_at sbuf' 0, elem_at sbuf' (j - 1)) of
                      (Some mostrecent, Some mintime) \<Rightarrow>
                        Inr (velocity_between (snd mostrecent) (snd mintime),
                             write_back sbuf' buffer1)
                    | _ \<Rightarrow> Inl TypeError)))"

text \<open>
  \<open>computeVelocity\<close> once more, with the \<open>return\<close> statement that produced the result:
  the one under \<open>buffer.length === 0\<close>, the one under \<open>elapsed === 0\<close>, or the last one.
\<close>

datatype return_site = FirstReturn | SecondReturn | ThirdReturn

definition computeVelocity_traced ::
    "slot list \<Rightarrow> cursor \<Rightarrow> jsnum \<Rightarrow> real \<Rightarrow> error + (return_site \<times> velocity \<times> slot list)" where
  "computeVelocity_traced buffer c msec now =
     (let buffer1 = write_anchor buffer c now;
          sbuf = array_sort compare_time (filter_defined buffer1)
      in if length sbuf = 0 then Inr (FirstReturn, zero_velocity, buffer1)
         else
           (let j = scan (tl sbuf) (js_sub (time (snd (hd sbuf))) msec) 1
            in case interpolateTrailingEdge sbuf (j - 1) msec (Fin 50) of
                 Inl e \<Rightarrow> Inl e
               | Inr sbuf' \<Rightarrow>
                   (case (elem_at sbuf' 0, elem_at sbuf' (j - 1)) of
                      (Some mostrecent, Some mintime) \<Rightarrow>
                        (let elapsed = js_sub (time (snd mostrecent)) (time (snd mintime))
                         in if elapsed = Fin 0
                            then Inr (SecondReturn, zero_velocity, write_back sbuf' buffer1)
                            else Inr
                              (ThirdReturn,
                               \<lparr>Vx = js_mul (js_div (js_sub (x (snd mostrecent)) (x (snd mintime)))
                                              elapsed) (Fin 1000),
                                Vy = js_mul (js_div (js_neg (js_sub (y (snd mostrecent))
                                                        (y (snd mintime)))) elapsed) (Fin 1000)\<rparr>,
                               write_back sbuf' buffer1))
                    | _ \<Rightarrow> Inl TypeError)))"

text \<open>
  What \<open>computeVelocity\<close> holds in \<open>mostrecent\<close> and \<open>mintime\<close> when it reaches
  \<open>var elapsed\<close>: an observation of the same computation, used to state properties of
  the path taken.
\<close>

definition boundary_pair ::
    "slot list \<Rightarrow> cursor \<Rightarrow> jsnum \<Rightarrow> real \<Rightarrow> (sample \<times> sample) option" where
  "boundary_pair buffer c msec now =
     (let sbuf = sorted_samples buffer c now
      in if length sbuf = 0 then None
         else
           (case interpolateTrailingEdge sbuf (boundary_index sbuf msec) msec (Fin 50) of
              Inl e \<Rightarrow> None
            | Inr sbuf' \<Rightarrow>
                (case (elem_at sbuf' 0, elem_at sbuf' (boundary_index sbuf msec)) of
                   (Some mostrecent, Some mintime) \<Rightarrow> Some (snd mostrecent, snd mintime)
                 | _ \<Rightarrow> None)))"

section \<open>The interpolation in double precision\<close>

text \<open>
  JavaScript numbers are IEEE 754 doubles: the result of an arithmetic operation is the
  exact result rounded to 53 significant bits, to the nearest such number and, half-way
  between two, to the one whose last bit is 0. \<open>fl\<close> is this rounding. The exponent
  range is not bounded here (no overflow to \<open>Infinity\<close>, no subnormal numbers): times in
  milliseconds and the weights computed from them are far from both ends of the range.
\<close>

definition round_half_even :: "real \<Rightarrow> int" where
  "round_half_even r =
     (let f = \<lfloor>r\<rfloor>; d = r - of_int f
      in if d < 1 / 2 then f else if 1 / 2 < d then f + 1 else if even f then f else f + 1)"

definition fl :: "real \<Rightarrow> real" where
  "fl v =
     (if v = 0 then 0
      else (let e = \<lfloor>log 2 \<bar>v\<bar>\<rfloor>
            in of_int (round_half_even (v * 2 powi (52 - e))) * 2 powi (e - 52)))"

text \<open>
  The arithmetic of \<open>interpolateTrailingEdge\<close> (lines 193 to 200) with the result of
  every operation passed through \<open>rnd\<close>: with the identity it is the arithmetic of the
  model above, with \<open>fl\<close> that of the doubles. \<open>Math.abs\<close> is exact.
\<close>

definition rounded :: "(real \<Rightarrow> real) \<Rightarrow> jsnum \<Rightarrow> jsnum" where
  "rounded rnd v = (case v of Fin a \<Rightarrow> Fin (rnd a) | _ \<Rightarrow> v)"

definition interpolated_fields ::
    "(real \<Rightarrow> real) \<Rightarrow> sample \<Rightarrow> jsnum \<Rightarrow> sample \<Rightarrow> sample \<Rightarrow> sample" where
  "interpolated_fields rnd mostrecent msec mintime trailing =
     (let tmsec = rounded rnd (js_sub (time mostrecent) msec);
          miniwindow = rounded rnd (js_sub (time mintime) (time trailing));
          w1 = rounded rnd (js_sub (Fin 1)
                 (rounded rnd (js_div (js_abs (rounded rnd (js_sub (time mintime) tmsec)))
                    miniwindow)));
          w2 = rounded rnd (js_sub (Fin 1)
                 (rounded rnd (js_div (js_abs (rounded rnd (js_sub tmsec (time trailing))))
                    miniwindow)))
      in \<lparr>x = rounded rnd (js_add (rounded rnd (js_mul w1 (x mintime)))
                               (rounded rnd (js_mul w2 (x trailing)))),
          y = rounded rnd (js_add (rounded rnd (js_mul w1 (y mintime)))
                               (rounded rnd (js_mul w2 (y trailing)))),
          time = rounded rnd (js_add (rounded rnd (js_mul w1 (time mintime)))
                                  (rounded rnd (js_mul w2 (time trailing))))\<rparr>)"

section \<open>The recorder\<close>

text \<open>
  \<open>new Array(len)\<close> raises \<open>RangeError\<close> unless \<open>len\<close> is an integer from 0 to
  \<open>2^32 - 1\<close>.
\<close>

definition new_Array :: "jsnum \<Rightarrow> error + slot list" where
  "new_Array n =
     (case n of
        Fin r \<Rightarrow>
          if r = of_int \<lfloor>r\<rfloor> \<and> 0 \<le> r \<and> r < 2 ^ 32
          then Inr (replicate (nat \<lfloor>r\<rfloor>) None) else Inl RangeError
      | _ \<Rightarrow> Inl RangeError)"

text \<open>
  The variables that the handlers of one call of \<open>$.fn.dragExitVelocity\<close> share. The
  argument \<open>msec\<close> is taken as the number that the arithmetic converts it to (\<open>NaN\<close> for
  a value that is not numeric).
\<close>

record session =
  s_buffer :: "slot list"
  s_len :: nat
  s_i :: cursor
  s_msec :: jsnum

definition dragExitVelocity :: "jsnum \<Rightarrow> error + session" where
  "dragExitVelocity msec =
     (let len = js_mul (Math_round (js_div msec (Fin 10))) (Fin 3)
      in case new_Array len of
           Inl e \<Rightarrow> Inl e
         | Inr buffer \<Rightarrow>
             Inr \<lparr>s_buffer = buffer, s_len = length buffer, s_i = Idx 0, s_msec = msec\<rparr>)"

text \<open>
  The mousemove handler, given the datum with its time stamp:
  \<open>buffer[i] = datum; i = (i + 1) % len\<close>. The remainder by 0 is \<open>NaN\<close>.
\<close>

definition mousemove :: "session \<Rightarrow> sample \<Rightarrow> session" where
  "mousemove s datum =
     (case s_i s of
        Idx k \<Rightarrow>
          s \<lparr>s_buffer := set_at (s_buffer s) k datum,
             s_i := (if s_len s = 0 then NaNIdx else Idx ((k + 1) mod s_len s))\<rparr>
      | NaNIdx \<Rightarrow> s)"

text \<open>The mouseup handler: \<open>computeVelocity(buffer, i, msec)\<close>.\<close>

definition mouseup :: "session \<Rightarrow> real \<Rightarrow> error + (velocity \<times> slot list)" where
  "mouseup s now = computeVelocity (s_buffer s) (s_i s) (s_msec s) now"

text \<open>A gesture: the session started with \<open>msec\<close>, then one mousemove per datum.\<close>

definition gesture :: "session \<Rightarrow> sample list \<Rightarrow> session" where
  "gesture s ds = foldl mousemove s ds"

text \<open>
  The state of a session between two events: a numeric cursor is below the capacity (or 0
  in an empty array of capacity 0), and a session whose cursor has become \<open>NaN\<close> has
  capacity 0 and has written element 0 of its array.
\<close>

definition session_ok :: "session \<Rightarrow> bool" where
  "session_ok s =
     (case s_i s of
        Idx k \<Rightarrow> length (s_buffer s) = s_len s \<and> (k < s_len s \<or> k = 0 \<and> s_len s = 0)
      | NaNIdx \<Rightarrow> s_len s = 0 \<and> filter_defined (s_buffer s) \<noteq> [])"

text \<open>The state of a session while it records into an array of capacity \<open>L\<close>.\<close>

definition recording :: "nat \<Rightarrow> session \<Rightarrow> bool" where
  "recording L s =
     (s_len s = L \<and> length (s_buffer s) = L \<and> (case s_i s of Idx k \<Rightarrow> k < L | NaNIdx \<Rightarrow> False))"

text \<open>
  The slots whose object \<open>computeVelocity\<close> writes: the slot that receives the anchor, and
  the slot of the object at index \<open>j - 1\<close> of the sorted array, which
  \<open>interpolateTrailingEdge\<close> may overwrite.
\<close>

definition anchor_slot :: "slot list \<Rightarrow> cursor \<Rightarrow> nat option" where
  "anchor_slot buffer c = (case c of Idx i \<Rightarrow> Some (anchor_index buffer i) | NaNIdx \<Rightarrow> None)"

definition boundary_slot :: "slot list \<Rightarrow> cursor \<Rightarrow> jsnum \<Rightarrow> real \<Rightarrow> nat option" where
  "boundary_slot buffer c msec now =
     (let sbuf = sorted_samples buffer c now
      in case elem_at sbuf (boundary_index sbuf msec) of
           None \<Rightarrow> None
         | Some mintime \<Rightarrow> Some (fst mintime))"

text \<open>
  Finite numbers and their values. A time stamp taken from the clock is always finite;
  the time of an element of the compacted array is read as a real once it is known to be
  finite.
\<close>

fun is_fin :: "jsnum \<Rightarrow> bool" where
  "is_fin (Fin a) = True"
| "is_fin v = False"

fun num_of :: "jsnum \<Rightarrow> real" where
  "num_of (Fin a) = a"
| "num_of v = 0"

definition fin_time :: "tagged \<Rightarrow> bool" where
  "fin_time e = is_fin (time (snd e))"

definition time_of :: "tagged \<Rightarrow> real" where
  "time_of e = num_of (time (snd e))"

text \<open>
  \<open>samples_of\<close> lists the samples that a buffer holds; a coordinate increases with time
  when, among those samples, a later time means a strictly larger coordinate and equal
  times mean equal coordinates.
\<close>

definition samples_of :: "slot list \<Rightarrow> sample list" where
  "samples_of buffer = map snd (filter_defined buffer)"

definition increases_with_time :: "(sample \<Rightarrow> jsnum) \<Rightarrow> sample list \<Rightarrow> bool" where
  "increases_with_time f ss =
     list_all (\<lambda>a. list_all (\<lambda>b. (js_lt (time a) (time b) \<longrightarrow> js_lt (f a) (f b)) \<and>
                                (time a = time b \<longrightarrow> f a = f b)) ss) ss"

text \<open>
  The pair that \<open>computeVelocity\<close> reads from a sorted array: the scan, the interpolation
  and the two reads, as in \<open>boundary_pair\<close>.
\<close>

definition final_pair :: "tagged list \<Rightarrow> jsnum \<Rightarrow> (sample \<times> sample) option" where
  "final_pair sbuf msec =
     (case interpolateTrailingEdge sbuf (boundary_index sbuf msec) msec (Fin 50) of
        Inl e \<Rightarrow> None
      | Inr sbuf' \<Rightarrow>
          (case (elem_at sbuf' 0, elem_at sbuf' (boundary_index sbuf msec)) of
             (Some mostrecent, Some mintime) \<Rightarrow> Some (snd mostrecent, snd mintime)
           | _ \<Rightarrow> None))"

lemmas eval_defs =
  computeVelocity_def boundary_pair_def sorted_samples_def boundary_index_def
  write_anchor_def anchor_index_def anchor_sample_def extend_copy_def get_at_def set_at_def
  is_array_index_def
  filter_defined_def compare_time_def js_gt_def js_sub_def interpolateTrailingEdge_def
  elem_at_def velocity_between_def elapsed_of_def zero_velocity_def Let_def

section \<open>Basic facts about the array operations\<close>

lemma scan_bounds: "j \<le> scan bs limit j \<and> scan bs limit j \<le> j + length bs"
proof (induction bs arbitrary: j)
  case Nil
  show ?case by simp
next
  case (Cons b bs)
  from Cons [of "Suc j"] show ?case by auto
qed

lemma length_insert_sorted [simp]: "length (insert_sorted cmp a bs) = Suc (length bs)"
  by (induction bs) auto
lemma length_array_sort [simp]: "length (array_sort cmp as) = length as"
  by (induction as) auto

lemma array_sort_eq_Nil [simp]: "array_sort cmp as = [] \<longleftrightarrow> as = []"
  using length_array_sort [of cmp as] by (metis length_0_conv)

lemma interpolate_total:
  assumes "j < length sbuf"
  shows "\<exists>sbuf'. interpolateTrailingEdge sbuf j msec th = Inr sbuf' \<and> length sbuf' = length sbuf"
  using assms
  by (auto simp: interpolateTrailingEdge_def elem_at_def Let_def split: option.splits)

lemma boundary_index_less: "sbuf \<noteq> [] \<Longrightarrow> boundary_index sbuf msec < length sbuf"
  using scan_bounds [of 1 "tl sbuf" "js_sub (time (snd (hd sbuf))) msec"]
  by (cases sbuf) (auto simp: boundary_index_def)

lemma computeVelocity_alt:
  "computeVelocity buffer c msec now =
     (if sorted_samples buffer c now = [] then Inr (zero_velocity, write_anchor buffer c now)
      else case interpolateTrailingEdge (sorted_samples buffer c now)
                  (boundary_index (sorted_samples buffer c now) msec) msec (Fin 50) of
             Inl e \<Rightarrow> Inl e
           | Inr sbuf' \<Rightarrow>
              (case (elem_at sbuf' 0, elem_at sbuf' (boundary_index (sorted_samples buffer c now) msec)) of
                      (Some mostrecent, Some mintime) \<Rightarrow>
                        Inr (velocity_between (snd mostrecent) (snd mintime),
                             write_back sbuf' (write_anchor buffer c now))
                    | _ \<Rightarrow> Inl TypeError))"
  unfolding computeVelocity_def sorted_samples_def boundary_index_def Let_def
  by (simp cong: sum.case_cong)

lemma computeVelocity_total: "\<exists>v st. computeVelocity buffer c msec now = Inr (v, st)"
proof (cases "sorted_samples buffer c now = []")
  case True
  then show ?thesis by (simp add: computeVelocity_alt)
next
  case False
  let ?s = "sorted_samples buffer c now"
  let ?j = "boundary_index ?s msec"
  have j: "?j < length ?s" using False by (rule boundary_index_less)
  then obtain sbuf' where i: "interpolateTrailingEdge ?s ?j msec (Fin 50) = Inr sbuf'"
    and l: "length sbuf' = length ?s"
    using interpolate_total by blast
  with j False show ?thesis
    by (simp add: computeVelocity_alt elem_at_def)
qed

lemma filter_from_append:
  "filter_from k (a @ b) = filter_from k a @ filter_from (k + length a) b"
proof (induction a arbitrary: k)
  case Nil
  show ?case by simp
next
  case (Cons s a)
  then show ?case by (cases s) simp_all
qed

lemma filter_from_replicate_None [simp]: "filter_from k (replicate m None) = []"
  by (induction m arbitrary: k) simp_all

lemma filter_from_mem:
  "(m, s) \<in> set (filter_from k a) \<longleftrightarrow> k \<le> m \<and> m - k < length a \<and> a ! (m - k) = Some s"
proof (induction a arbitrary: k)
  case Nil
  show ?case by simp
next
  case (Cons h a)
  show ?case
  proof (cases "m = k")
    case True
    then show ?thesis using Cons [of "Suc k"] by (cases h) auto
  next
    case False
    then have "m - k = Suc (m - Suc k)" if "k \<le> m" using that by simp
    then show ?thesis using False Cons [of "Suc k"]
      by (cases h) (auto simp: Suc_le_eq)
  qed
qed

lemma filter_defined_mem:
  "(m, s) \<in> set (filter_defined a) \<longleftrightarrow> get_at a m = Some s"
  by (auto simp: filter_defined_def filter_from_mem get_at_def)

lemma set_at_no_index [simp]: "\<not> is_array_index i \<Longrightarrow> set_at a i v = a"
  by (simp add: set_at_def)

lemma get_at_set_at_same [simp]: "is_array_index i \<Longrightarrow> get_at (set_at a i v) i = Some v"
  by (simp add: get_at_def set_at_def nth_append)

lemma length_set_at:
  "length (set_at a i v) = (if is_array_index i \<and> length a \<le> i then Suc i else length a)"
  by (simp add: set_at_def)

lemma filter_defined_set_at_nonempty:
  assumes "is_array_index i"
  shows "filter_defined (set_at a i v) \<noteq> []"
proof -
  have "(i, v) \<in> set (filter_defined (set_at a i v))"
    using assms by (simp add: filter_defined_mem)
  then show ?thesis by auto
qed

lemma anchored_nonempty:
  "is_array_index (anchor_index buffer i) \<Longrightarrow>
   filter_defined (write_anchor buffer (Idx i) now) \<noteq> []"
  by (simp add: write_anchor_def Let_def filter_defined_set_at_nonempty)

lemma write_anchor_no_index:
  "\<not> is_array_index (anchor_index buffer i) \<Longrightarrow> write_anchor buffer (Idx i) now = buffer"
  by (simp add: write_anchor_def Let_def)

lemma set_at_replicate_None:
  assumes "is_array_index i"
  shows "set_at (replicate n None) i v = replicate i None @ Some v # replicate (n - Suc i) None"
proof (cases "i < n")
  case True
  with assms show ?thesis
    by (simp add: set_at_def upd_conv_take_nth_drop min_def)
next
  case False
  with assms show ?thesis
    by (simp add: set_at_def replicate_add [symmetric])
qed

lemma filter_defined_anchor_only:
  "is_array_index i \<Longrightarrow> filter_defined (set_at (replicate n None) i v) = [(i, v)]"
  by (simp add: set_at_replicate_None filter_defined_def filter_from_append)

lemma anchor_sample_empty:
  "anchor_sample (replicate n None) i now = \<lparr>x = NaN, y = NaN, time = Fin now\<rparr>"
  by (simp add: anchor_sample_def extend_copy_def get_at_def)

lemma sorted_samples_empty:
  "is_array_index (anchor_index (replicate n None) i) \<Longrightarrow>
   sorted_samples (replicate n None) (Idx i) now =
     [(anchor_index (replicate n None) i, \<lparr>x = NaN, y = NaN, time = Fin now\<rparr>)]"
  by (simp add: sorted_samples_def write_anchor_def Let_def filter_defined_anchor_only
      anchor_sample_empty)

lemma sorted_samples_empty_no_index:
  "\<not> is_array_index (anchor_index (replicate n None) i) \<Longrightarrow>
   sorted_samples (replicate n None) (Idx i) now = []"
  by (simp add: sorted_samples_def write_anchor_no_index filter_defined_def)

lemma sorted_samples_empty_NaN: "sorted_samples (replicate n None) NaNIdx now = []"
  by (simp add: sorted_samples_def write_anchor_def filter_defined_def)

lemma elapsed_same [simp]: "elapsed_of \<lparr>x = a, y = b, time = Fin t\<rparr> \<lparr>x = a', y = b', time = Fin t\<rparr> = Fin 0"
  by (simp add: elapsed_of_def js_sub_def)

lemma computeVelocity_empty:
  "\<exists>st. computeVelocity (replicate n None) c msec now = Inr (zero_velocity, st)"
proof (cases c)
  case (Idx i)
  show ?thesis
  proof (cases "is_array_index (anchor_index (replicate n None) i)")
    case True
    with Idx show ?thesis
      by (simp add: computeVelocity_alt sorted_samples_empty boundary_index_def
        interpolateTrailingEdge_def elem_at_def velocity_between_def)
  next
    case False
    with Idx show ?thesis
      by (simp add: computeVelocity_alt sorted_samples_empty_no_index)
  qed
next
  case NaNIdx
  then show ?thesis
    by (simp add: computeVelocity_alt sorted_samples_empty_NaN)
qed

lemma computeVelocity_pair:
  assumes "boundary_pair buffer c msec now = Some (mr, mt)"
  shows "\<exists>st. computeVelocity buffer c msec now = Inr (velocity_between mr mt, st)"
  using assms
  by (auto simp: boundary_pair_def computeVelocity_alt Let_def
      split: if_splits sum.splits option.splits)

section \<open>Basic facts about the recorder\<close>

lemma session_ok_mousemove:
  assumes "session_ok s" and "s_len s \<le> 2 ^ 32 - 1"
  shows "session_ok (mousemove s d)"
proof (cases "s_i s")
  case NaNIdx
  with assms show ?thesis by (simp add: mousemove_def)
next
  case (Idx k)
  with assms have l: "length (s_buffer s) = s_len s" and k: "k < s_len s \<or> k = 0 \<and> s_len s = 0"
    by (simp_all add: session_ok_def)
  from k assms(2) have ix: "is_array_index k" by (auto simp: is_array_index_def)
  show ?thesis
  proof (cases "s_len s = 0")
    case True
    with Idx ix show ?thesis
      by (simp add: mousemove_def session_ok_def filter_defined_set_at_nonempty)
  next
    case False
    with k have "k < s_len s" by simp
    with Idx l ix False show ?thesis
      by (simp add: mousemove_def session_ok_def length_set_at)
  qed
qed

lemma s_len_mousemove [simp]: "s_len (mousemove s d) = s_len s"
  by (simp add: mousemove_def split: cursor.splits)

lemma s_len_gesture [simp]: "s_len (gesture s ds) = s_len s"
  unfolding gesture_def by (induction ds arbitrary: s) simp_all

lemma s_msec_mousemove [simp]: "s_msec (mousemove s d) = s_msec s"
  by (simp add: mousemove_def split: cursor.splits)

lemma s_msec_gesture [simp]: "s_msec (gesture s ds) = s_msec s"
  unfolding gesture_def by (induction ds arbitrary: s) simp_all

lemma session_ok_gesture:
  assumes "session_ok s" and "s_len s \<le> 2 ^ 32 - 1"
  shows "session_ok (gesture s ds)"
  using assms unfolding gesture_def
  by (induction ds arbitrary: s) (simp_all add: session_ok_mousemove)

lemma new_Array_Inr:
  assumes "new_Array n = Inr b"
  shows "b = replicate (length b) None" and "length b \<le> 2 ^ 32 - 1"
proof -
  from assms obtain r :: real where r: "r < 2 ^ 32" and b: "b = replicate (nat \<lfloor>r\<rfloor>) None"
    by (cases n) (auto simp: new_Array_def split: if_splits)
  from b show "b = replicate (length b) None" by simp
  from r have "\<lfloor>r\<rfloor> < 4294967296" by (simp add: floor_less_iff)
  then have "nat \<lfloor>r\<rfloor> < 4294967296" by linarith
  with b show "length b \<le> 2 ^ 32 - 1" by simp
qed

lemma session_start:
  assumes "dragExitVelocity msec = Inr s"
  shows "session_ok s" and "s_len s \<le> 2 ^ 32 - 1" and "s_msec s = msec"
    and "s_buffer s = replicate (s_len s) None" and "s_i s = Idx 0"
proof -
  let ?len = "js_mul (Math_round (js_div msec (Fin 10))) (Fin 3)"
  from assms obtain b where b: "new_Array ?len = Inr b"
    and s: "s = \<lparr>s_buffer = b, s_len = length b, s_i = Idx 0, s_msec = msec\<rparr>"
    by (auto simp: dragExitVelocity_def Let_def split: sum.splits)
  from new_Array_Inr [OF b] s show "s_len s \<le> 2 ^ 32 - 1"
    and "s_buffer s = replicate (s_len s) None" by simp_all
  from s show "session_ok s" by (simp add: session_ok_def)
  from s show "s_msec s = msec" by simp
  from s show "s_i s = Idx 0" by simp
qed

lemma session_ok_array_index:
  assumes "session_ok s" and "s_len s < 2 ^ 32 - 1" and "s_i s = Idx k"
  shows "is_array_index (anchor_index (s_buffer s) k)"
  using assms by (auto simp: session_ok_def anchor_index_def is_array_index_def)

lemma session_ok_nonempty:
  assumes "session_ok s" and "s_len s < 2 ^ 32 - 1"
  shows "filter_defined (write_anchor (s_buffer s) (s_i s) now) \<noteq> []"
proof (cases "s_i s")
  case (Idx k)
  with assms show ?thesis
    by (simp add: anchored_nonempty session_ok_array_index)
next
  case NaNIdx
  with assms show ?thesis by (simp add: session_ok_def write_anchor_def)
qed

section \<open>Facts about the interpolation\<close>

lemma interp_weights:
  fixes tb tt T :: real
  assumes "tt < T" "T \<le> tb"
  shows "1 - \<bar>tb - T\<bar> / (tb - tt) = 1 - (tb - T) / (tb - tt)"
    and "1 - \<bar>T - tt\<bar> / (tb - tt) = (tb - T) / (tb - tt)"
    and "(1 - (tb - T) / (tb - tt)) * tb + (tb - T) / (tb - tt) * tt = T"
    and "0 \<le> (tb - T) / (tb - tt)" and "(tb - T) / (tb - tt) < 1"
proof -
  from assms have g: "0 < tb - tt" by simp
  from assms show "1 - \<bar>tb - T\<bar> / (tb - tt) = 1 - (tb - T) / (tb - tt)" by simp
  from assms g show "1 - \<bar>T - tt\<bar> / (tb - tt) = (tb - T) / (tb - tt)"
    by (simp add: field_simps)
  have "(1 - l) * tb + l * tt = tb - l * (tb - tt)" for l :: real
    by (simp add: algebra_simps)
  then have "(1 - (tb - T) / (tb - tt)) * tb + (tb - T) / (tb - tt) * tt
      = tb - (tb - T) / (tb - tt) * (tb - tt)" .
  also from g have "\<dots> = T" by simp
  finally show "(1 - (tb - T) / (tb - tt)) * tb + (tb - T) / (tb - tt) * tt = T" .
  from assms g show "0 \<le> (tb - T) / (tb - tt)" by simp
  from assms g show "(tb - T) / (tb - tt) < 1" by simp
qed

lemma js_sub_Fin [simp]: "js_sub (Fin a) (Fin b) = Fin (a - b)"
  by (simp add: js_sub_def)

lemma interpolate_straddle:
  assumes len: "Suc j < length buf"
    and mr: "time (snd (buf ! 0)) = Fin tm"
    and b: "buf ! j = (k, \<lparr>x = Fin xb, y = Fin yb, time = Fin tb\<rparr>)"
    and tr: "snd (buf ! Suc j) = \<lparr>x = Fin xt, y = Fin yt, time = Fin tt\<rparr>"
    and old: "tt < tm - w" and inw: "tm - w \<le> tb" and gap: "tb - tt < 50"
  shows "interpolateTrailingEdge buf j (Fin w) (Fin 50) =
           Inr (buf[j := (k, \<lparr>x = Fin ((1 - (tb - (tm - w)) / (tb - tt)) * xb
                                       + (tb - (tm - w)) / (tb - tt) * xt),
                              y = Fin ((1 - (tb - (tm - w)) / (tb - tt)) * yb
                                       + (tb - (tm - w)) / (tb - tt) * yt),
                              time = Fin (tm - w)\<rparr>)]) \<and>
         0 \<le> (tb - (tm - w)) / (tb - tt) \<and> (tb - (tm - w)) / (tb - tt) < 1"
proof -
  define T where "T = tm - w"
  define l where "l = (tb - T) / (tb - tt)"
  from old inw have g: "tb - tt \<noteq> 0" by simp
  note ws = interp_weights [OF old inw, folded T_def, folded l_def]
  from len have e: "elem_at buf (Suc j) = Some (buf ! Suc j)" "elem_at buf j = Some (buf ! j)"
    "elem_at buf 0 = Some (buf ! 0)"
    by (auto simp: elem_at_def)
  have tmsec: "js_sub (Fin tm) (Fin w) = Fin T"
    by (simp add: T_def)
  have lt: "js_lt (Fin (tb - tt)) (Fin 50)"
    using gap by simp
  have mw: "js_sub (Fin tb) (Fin tt) = Fin (tb - tt)"
    by simp
  have w1: "js_sub (Fin 1) (js_div (js_abs (js_sub (Fin tb) (Fin T))) (Fin (tb - tt))) = Fin (1 - l)"
    using g ws(1) by simp
  have w2: "js_sub (Fin 1) (js_div (js_abs (js_sub (Fin T) (Fin tt))) (Fin (tb - tt))) = Fin l"
    using g ws(2) by simp
  have "interpolateTrailingEdge buf j (Fin w) (Fin 50) =
           Inr (buf[j := (k, \<lparr>x = Fin ((1 - l) * xb + l * xt),
                              y = Fin ((1 - l) * yb + l * yt),
                              time = Fin ((1 - l) * tb + l * tt)\<rparr>)])"
    by (simp only: interpolateTrailingEdge_def Let_def add_Suc_right add_0_right One_nat_def
        e option.case b tr mr fst_conv snd_conv sample.select_convs lt if_True tmsec mw w1 w2
        js_mul.simps js_add.simps)
  with ws(3,4,5) show ?thesis
    by (simp add: l_def T_def)
qed

section \<open>Facts about session start and recording\<close>

lemma round_neg_iff: "\<lfloor>r / 10 + 1 / 2\<rfloor> < 0 \<longleftrightarrow> r < - 5" for r :: real
proof -
  have "\<lfloor>r / 10 + 1 / 2\<rfloor> < 0 \<longleftrightarrow> r / 10 + 1 / 2 < 0"
    by (simp add: floor_less_iff)
  also have "\<dots> \<longleftrightarrow> r < - 5" by linarith
  finally show ?thesis .
qed

lemma new_Array_int:
  "new_Array (Fin (of_int n)) =
     (if 0 \<le> n \<and> n < 2 ^ 32 then Inr (replicate (nat n) None) else Inl RangeError)"
proof -
  have "(of_int n :: real) < 2 ^ 32 \<longleftrightarrow> n < 2 ^ 32"
    using of_int_less_iff [of n "2 ^ 32", where 'a = real] by simp
  then show ?thesis by (simp add: new_Array_def)
qed

lemma recording_mousemove:
  "recording L s \<Longrightarrow> L \<le> 2 ^ 32 - 1 \<Longrightarrow> recording L (mousemove s d)"
  by (auto simp: recording_def mousemove_def length_set_at is_array_index_def
      split: cursor.splits)

lemma recording_gesture:
  "recording L s \<Longrightarrow> L \<le> 2 ^ 32 - 1 \<Longrightarrow> recording L (gesture s ds)"
  unfolding gesture_def
  by (induction ds arbitrary: s) (simp_all add: recording_mousemove)

lemma recording_start:
  "dragExitVelocity msec = Inr s \<Longrightarrow> 0 < s_len s \<Longrightarrow> recording (s_len s) s"
  by (auto simp: dragExitVelocity_def recording_def Let_def split: sum.splits)

lemma length_write_back [simp]: "length (write_back ts a) = length a"
  by (induction ts a rule: write_back.induct) simp_all

lemma computeVelocity_state_length:
  assumes "computeVelocity buffer c msec now = Inr (v, st)"
  shows "length st = length (write_anchor buffer c now)"
  using assms
  by (auto simp: computeVelocity_alt split: if_splits sum.splits option.splits)

section \<open>Facts about the objects written\<close>

lemma write_back_same:
  assumes "\<And>k s. (k, s) \<in> set ts \<Longrightarrow> k = m \<Longrightarrow> a ! m = Some s"
  shows "write_back ts a ! m = a ! m"
  using assms
proof (induction ts a rule: write_back.induct)
  case (1 a)
  show ?case by simp
next
  case (2 k s ts a)
  have same: "a[k := Some s] ! m = a ! m"
  proof (cases "k = m")
    case True
    with "2.prems" [of k s] have "a ! m = Some s" by simp
    then have "a[m := Some s] = a" by (metis list_update_id)
    with True show ?thesis by simp
  next
    case False
    then show ?thesis by simp
  qed
  have "write_back ts (a[k := Some s]) ! m = a[k := Some s] ! m"
  proof (rule "2.IH")
    fix k' s'
    assume "(k', s') \<in> set ts" "k' = m"
    with "2.prems" [of k' s'] same show "a[k := Some s] ! m = Some s'" by simp
  qed
  with same show ?case by simp
qed

lemma set_insert_sorted [simp]: "set (insert_sorted cmp a bs) = insert a (set bs)"
  by (induction bs) auto

lemma set_array_sort [simp]: "set (array_sort cmp as) = set as"
  by (induction as) auto

lemma interpolate_cases:
  assumes "interpolateTrailingEdge sbuf j msec th = Inr sbuf'"
  shows "sbuf' = sbuf \<or> (\<exists>s'. j < length sbuf \<and> sbuf' = sbuf[j := (fst (sbuf ! j), s')])"
  using assms
  by (auto simp: interpolateTrailingEdge_def elem_at_def Let_def split: option.splits if_splits)

lemma get_at_set_at_other: "m \<noteq> i \<Longrightarrow> get_at (set_at a i v) m = get_at a m"
  by (auto simp: get_at_def set_at_def nth_append)

lemma get_at_write_anchor:
  "anchor_slot buffer c \<noteq> Some m \<Longrightarrow> get_at (write_anchor buffer c now) m = get_at buffer m"
  by (auto simp: anchor_slot_def write_anchor_def Let_def get_at_set_at_other split: cursor.splits)

lemma write_back_frame:
  assumes i: "interpolateTrailingEdge sbuf j msec th = Inr sbuf'"
    and s: "set sbuf = set (filter_defined a)"
    and m: "j < length sbuf \<Longrightarrow> fst (sbuf ! j) \<noteq> m"
  shows "get_at (write_back sbuf' a) m = get_at a m"
proof -
  have "write_back sbuf' a ! m = a ! m"
  proof (rule write_back_same)
    fix k s
    assume in': "(k, s) \<in> set sbuf'" and k: "k = m"
    from interpolate_cases [OF i] have "(k, s) \<in> set sbuf"
    proof
      assume "sbuf' = sbuf"
      with in' show ?thesis by simp
    next
      assume "\<exists>s'. j < length sbuf \<and> sbuf' = sbuf[j := (fst (sbuf ! j), s')]"
      then obtain s' where j: "j < length sbuf" and e: "sbuf' = sbuf[j := (fst (sbuf ! j), s')]"
        by blast
      from in' e have "(k, s) \<in> insert (fst (sbuf ! j), s') (set sbuf)"
        using set_update_subset_insert by fastforce
      with m [OF j] k show ?thesis by auto
    qed
    with s have "get_at a k = Some s" by (simp add: filter_defined_mem)
    with k show "a ! m = Some s" by (simp add: get_at_def split: if_splits)
  qed
  then show ?thesis by (simp add: get_at_def)
qed

section \<open>Facts about the sort and the scan\<close>

lemma is_fin_conv: "is_fin v \<longleftrightarrow> v = Fin (num_of v)"
  by (cases v) simp_all

lemma fin_time_conv: "fin_time e \<longleftrightarrow> time (snd e) = Fin (time_of e)"
  by (simp add: fin_time_def time_of_def is_fin_conv [symmetric])

lemma compare_time_fin:
  assumes "fin_time a" "fin_time b"
  shows "compare_time a b < 0 \<longleftrightarrow> fst a \<noteq> fst b \<and> time_of b < time_of a"
  using assms by (simp add: compare_time_def js_gt_def fin_time_conv)

lemma sorted_insert_sorted:
  assumes "list_all fin_time (a # bs)" and "fst a \<notin> fst ` set bs"
    and "sorted_wrt (\<lambda>u v. time_of v \<le> time_of u) bs"
  shows "sorted_wrt (\<lambda>u v. time_of v \<le> time_of u) (insert_sorted compare_time a bs)"
  using assms
proof (induction bs)
  case Nil
  show ?case by simp
next
  case (Cons b bs)
  then have fa: "fin_time a" and fb: "fin_time b" and ne: "fst b \<noteq> fst a"
    by auto
  show ?case
  proof (cases "compare_time b a < 0")
    case True
    with fa fb have lt: "time_of a < time_of b" by (simp add: compare_time_fin)
    from Cons have "sorted_wrt (\<lambda>u v. time_of v \<le> time_of u) (insert_sorted compare_time a bs)"
      by simp
    moreover from Cons.prems lt have "\<forall>e \<in> set (insert_sorted compare_time a bs). time_of e \<le> time_of b"
      by auto
    ultimately show ?thesis using True by simp
  next
    case False
    with fa fb ne have le: "time_of b \<le> time_of a" by (simp add: compare_time_fin)
    with Cons.prems have "\<forall>e \<in> set (b # bs). time_of e \<le> time_of a"
      by fastforce
    with Cons.prems False show ?thesis by simp
  qed
qed

lemma sorted_array_sort:
  assumes "list_all fin_time as" and "distinct (map fst as)"
  shows "sorted_wrt (\<lambda>u v. time_of v \<le> time_of u) (array_sort compare_time as)"
  using assms
proof (induction as)
  case Nil
  show ?case by simp
next
  case (Cons a as)
  then have "sorted_wrt (\<lambda>u v. time_of v \<le> time_of u) (array_sort compare_time as)"
    by simp
  moreover from Cons.prems have "list_all fin_time (a # array_sort compare_time as)"
    by (simp add: list_all_iff)
  moreover from Cons.prems have "fst a \<notin> fst ` set (array_sort compare_time as)"
    by simp
  ultimately show ?case
    by (simp add: sorted_insert_sorted)
qed

lemma filter_from_fst_ge: "e \<in> set (filter_from k a) \<Longrightarrow> k \<le> fst e"
  by (cases e) (simp add: filter_from_mem)

lemma distinct_filter_from: "distinct (map fst (filter_from k a))"
proof (induction a arbitrary: k)
  case Nil
  show ?case by simp
next
  case (Cons h a)
  show ?case
  proof (cases h)
    case None
    with Cons show ?thesis by simp
  next
    case (Some s)
    have "k \<notin> fst ` set (filter_from (Suc k) a)"
      using filter_from_fst_ge [of _ "Suc k" a] by fastforce
    with Some Cons show ?thesis by simp
  qed
qed

lemma distinct_filter_defined: "distinct (map fst (filter_defined a))"
  by (simp add: filter_defined_def distinct_filter_from)

lemma scan_spec:
  "(\<forall>n < scan bs limit j - j. \<not> js_lt (time (snd (bs ! n))) limit) \<and>
   (scan bs limit j - j < length bs \<longrightarrow> js_lt (time (snd (bs ! (scan bs limit j - j)))) limit)"
proof (induction bs arbitrary: j)
  case Nil
  show ?case by simp
next
  case (Cons b bs)
  show ?case
  proof (cases "js_lt (time (snd b)) limit")
    case True
    then show ?thesis by simp
  next
    case False
    have ge: "Suc j \<le> scan bs limit (Suc j)" using scan_bounds by blast
    then have d: "scan bs limit (Suc j) - j = Suc (scan bs limit (Suc j) - Suc j)" by simp
    from Cons [of "Suc j"] False show ?thesis
      by (auto simp: d less_Suc_eq_0_disj)
  qed
qed

lemma js_lt_asym: "js_lt a b \<Longrightarrow> \<not> js_lt b a"
  by (cases a; cases b) simp_all

lemma time_anchor_sample [simp]: "time (anchor_sample buffer i now) = Fin now"
  by (simp add: anchor_sample_def)

lemma hd_array_sort_newest:
  assumes "a \<in> set as"
    and "\<And>e. e \<in> set as \<Longrightarrow> e \<noteq> a \<Longrightarrow> cmp a e < 0 \<and> \<not> cmp e a < 0"
  shows "hd (array_sort cmp as) = a"
  using assms
proof (induction as)
  case Nil
  then show ?case by simp
next
  case (Cons c as)
  let ?s = "array_sort cmp as"
  show ?case
  proof (cases "a \<in> set as")
    case True
    with Cons have h: "hd ?s = a" by simp
    from True have ne: "?s \<noteq> []" by auto
    with h obtain bs where s: "?s = a # bs" by (cases ?s) auto
    show ?thesis
    proof (cases "c = a")
      case True
      with s show ?thesis by simp
    next
      case False
      with Cons.prems(2) [of c] have "cmp a c < 0" by simp
      with s show ?thesis by simp
    qed
  next
    case False
    with Cons.prems(1) have ca: "c = a" by simp
    show ?thesis
    proof (cases ?s)
      case Nil
      with ca show ?thesis by simp
    next
      case (Cons b bs)
      then have "b \<in> set as" using set_array_sort [of cmp as] by auto
      with False Cons.prems(2) [of b] have "\<not> cmp b a < 0" by auto
      with Cons ca show ?thesis by simp
    qed
  qed
qed

section \<open>Facts about the sign of the velocity\<close>

lemma interpolate_keep:
  assumes "elem_at buf (Suc j) = None \<or>
           (\<exists>b t. elem_at buf j = Some b \<and> elem_at buf (Suc j) = Some t \<and>
              \<not> js_lt (js_sub (time (snd b)) (time (snd t))) th)"
  shows "interpolateTrailingEdge buf j msec th = Inr buf"
  using assms by (auto simp: interpolateTrailingEdge_def)

lemma velocity_between_sign:
  assumes "time mr = Fin tr" and "time mt = Fin tt"
  shows "js_lt (Fin 0) (Vx (velocity_between mr mt)) \<longleftrightarrow>
           js_lt (x mt) (x mr) \<and> tt < tr \<or> js_lt (x mr) (x mt) \<and> tr < tt"
    and "js_lt (Vy (velocity_between mr mt)) (Fin 0) \<longleftrightarrow>
           js_lt (y mt) (y mr) \<and> tt < tr \<or> js_lt (y mr) (y mt) \<and> tr < tt"
proof -
  have e: "elapsed_of mr mt = Fin (tr - tt)"
    by (simp add: elapsed_of_def assms)
  have pos: "js_lt (Fin 0) (js_mul (js_div (js_sub a b) (Fin d)) (Fin 1000)) \<longleftrightarrow>
      js_lt b a \<and> 0 < d \<or> js_lt a b \<and> d < 0" if "d \<noteq> 0" for a b d
    using that
    by (cases a; cases b)
      (auto simp: js_sub_def zero_less_mult_iff zero_less_divide_iff)
  have neg: "js_lt (js_mul (js_div (js_neg (js_sub a b)) (Fin d)) (Fin 1000)) (Fin 0) \<longleftrightarrow>
      js_lt b a \<and> 0 < d \<or> js_lt a b \<and> d < 0" if "d \<noteq> 0" for a b d
    using that
    by (cases a; cases b)
      (auto simp: js_sub_def mult_less_0_iff divide_less_0_iff)
  show "js_lt (Fin 0) (Vx (velocity_between mr mt)) \<longleftrightarrow>
           js_lt (x mt) (x mr) \<and> tt < tr \<or> js_lt (x mr) (x mt) \<and> tr < tt"
    using pos [of "tr - tt" "x mr" "x mt"]
    by (cases "tr = tt") (simp_all add: velocity_between_def e zero_velocity_def Let_def)
  show "js_lt (Vy (velocity_between mr mt)) (Fin 0) \<longleftrightarrow>
           js_lt (y mt) (y mr) \<and> tt < tr \<or> js_lt (y mr) (y mt) \<and> tr < tt"
    using neg [of "tr - tt" "y mr" "y mt"]
    by (cases "tr = tt") (simp_all add: velocity_between_def e zero_velocity_def Let_def)
qed

lemma samples_of_mem: "s \<in> set (samples_of buffer) \<longleftrightarrow> (\<exists>k. get_at buffer k = Some s)"
proof -
  have "s \<in> set (samples_of buffer) \<longleftrightarrow> (\<exists>k. (k, s) \<in> set (filter_defined buffer))"
    by (force simp: samples_of_def)
  then show ?thesis by (simp add: filter_defined_mem)
qed

lemma anchored_mem:
  "e \<in> set (filter_defined (write_anchor buffer (Idx i) now)) \<longleftrightarrow>
     is_array_index (anchor_index buffer i) \<and>
       e = (anchor_index buffer i, anchor_sample buffer (anchor_index buffer i) now) \<or>
     (is_array_index (anchor_index buffer i) \<longrightarrow> fst e \<noteq> anchor_index buffer i) \<and>
       get_at buffer (fst e) = Some (snd e)"
proof -
  obtain k s where e: "e = (k, s)" by (cases e)
  show ?thesis
  proof (cases "is_array_index (anchor_index buffer i)")
    case True
    then show ?thesis
      unfolding e write_anchor_def Let_def cursor.case filter_defined_mem
      by (cases "k = anchor_index buffer i") (auto simp: get_at_set_at_other)
  next
    case False
    then show ?thesis
      by (simp add: e write_anchor_no_index filter_defined_mem)
  qed
qed

section \<open>Facts about samples older than the window\<close>

lemma boundary_pair_final:
  "boundary_pair buffer c msec now =
     (if sorted_samples buffer c now = [] then None
      else final_pair (sorted_samples buffer c now) msec)"
  by (simp add: boundary_pair_def final_pair_def Let_def)

lemma final_pair_Some:
  assumes "sbuf \<noteq> []"
  shows "\<exists>mr mt. final_pair sbuf msec = Some (mr, mt)"
proof -
  let ?j = "boundary_index sbuf msec"
  have j: "?j < length sbuf" using assms by (rule boundary_index_less)
  then obtain sbuf' where "interpolateTrailingEdge sbuf ?j msec (Fin 50) = Inr sbuf'"
    and "length sbuf' = length sbuf"
    using interpolate_total by blast
  with j assms show ?thesis
    by (simp add: final_pair_def elem_at_def)
qed

lemma filter_insert_sorted_out:
  "\<not> q a \<Longrightarrow> filter q (insert_sorted cmp a bs) = filter q bs"
  by (induction bs) simp_all

lemma filter_insert_sorted_in:
  assumes "q a" and "list_all fin_time (a # bs)" and "fst a \<notin> fst ` set bs"
    and "sorted_wrt (\<lambda>u v. time_of v \<le> time_of u) bs"
  shows "filter q (insert_sorted compare_time a bs) = insert_sorted compare_time a (filter q bs)"
  using assms
proof (induction bs)
  case Nil
  then show ?case by simp
next
  case (Cons b bs)
  then have fa: "fin_time a" and fb: "fin_time b" and ne: "fst b \<noteq> fst a"
    by auto
  from Cons have IH: "filter q (insert_sorted compare_time a bs) =
      insert_sorted compare_time a (filter q bs)"
    by simp
  show ?case
  proof (cases "compare_time b a < 0")
    case True
    with IH show ?thesis by simp
  next
    case False
    with fa fb ne have le: "time_of b \<le> time_of a" by (simp add: compare_time_fin)
    have "insert_sorted compare_time a (filter q (b # bs)) = a # filter q (b # bs)"
    proof (cases "filter q (b # bs)")
      case Nil
      then show ?thesis by simp
    next
      case (Cons c cs)
      then have "c \<in> set (filter q (b # bs))" by simp
      then have "c \<in> set (b # bs)" by (simp only: set_filter) blast
      with Cons.prems(4) le have "time_of c \<le> time_of a" by auto
      moreover from \<open>c \<in> set (b # bs)\<close> Cons.prems(2) have "fin_time c"
        by (auto simp: list_all_iff)
      ultimately have "\<not> compare_time c a < 0"
        using fa by (simp add: compare_time_fin)
      with Cons show ?thesis by simp
    qed
    with False \<open>q a\<close> show ?thesis by simp
  qed
qed

lemma filter_array_sort:
  assumes "list_all fin_time as" and "distinct (map fst as)"
  shows "filter q (array_sort compare_time as) = array_sort compare_time (filter q as)"
  using assms
proof (induction as)
  case Nil
  show ?case by simp
next
  case (Cons a as)
  then have IH: "filter q (array_sort compare_time as) = array_sort compare_time (filter q as)"
    by simp
  show ?case
  proof (cases "q a")
    case False
    with IH show ?thesis by (simp add: filter_insert_sorted_out)
  next
    case True
    have "filter q (insert_sorted compare_time a (array_sort compare_time as)) =
        insert_sorted compare_time a (filter q (array_sort compare_time as))"
    proof (rule filter_insert_sorted_in)
      show "q a" by (rule True)
      from Cons.prems show "list_all fin_time (a # array_sort compare_time as)"
        by (simp add: list_all_iff)
      from Cons.prems show "fst a \<notin> fst ` set (array_sort compare_time as)"
        by simp
      from Cons.prems show "sorted_wrt (\<lambda>u v. time_of v \<le> time_of u) (array_sort compare_time as)"
        by (simp add: sorted_array_sort)
    qed
    with True IH show ?thesis by simp
  qed
qed

lemma sorted_split:
  assumes "sorted_wrt (\<lambda>u v. time_of v \<le> time_of u) S"
  shows "S = filter (\<lambda>u. c < time_of u) S @ filter (\<lambda>u. \<not> c < time_of u) S"
  using assms
proof (induction S)
  case Nil
  show ?case by simp
next
  case (Cons a S)
  show ?case
  proof (cases "c < time_of a")
    case True
    with Cons show ?thesis by simp
  next
    case False
    with Cons.prems have "\<forall>u \<in> set S. \<not> c < time_of u" by auto
    then have "filter (\<lambda>u. c < time_of u) S = []" "filter (\<lambda>u. \<not> c < time_of u) S = S"
      by (simp_all add: filter_empty_conv filter_id_conv)
    with False show ?thesis by simp
  qed
qed

lemma scan_append:
  "scan (xs @ ys) limit j =
     (if scan xs limit j < j + length xs then scan xs limit j
      else scan ys limit (j + length xs))"
proof (induction xs arbitrary: j)
  case Nil
  show ?case by simp
next
  case (Cons b xs)
  show ?case
  proof (cases "js_lt (time (snd b)) limit")
    case True
    then show ?thesis by simp
  next
    case False
    with Cons [of "Suc j"] show ?thesis by simp
  qed
qed

lemma elem_at_append1: "k < length N \<Longrightarrow> elem_at (N @ R) k = Some (N ! k)"
  by (simp add: elem_at_def nth_append)

lemma interpolate_append:
  assumes "Suc j < length N"
  shows "interpolateTrailingEdge (N @ R) j msec th =
           (case interpolateTrailingEdge N j msec th of
              Inl e \<Rightarrow> Inl e
            | Inr N' \<Rightarrow> Inr (N' @ R))"
proof -
  from assms have e: "elem_at (N @ R) (Suc j) = Some (N ! Suc j)" "elem_at (N @ R) j = Some (N ! j)"
      "elem_at (N @ R) 0 = Some (N ! 0)"
      "elem_at N (Suc j) = Some (N ! Suc j)" "elem_at N j = Some (N ! j)" "elem_at N 0 = Some (N ! 0)"
    by (auto simp: elem_at_def nth_append)
  from assms have u: "(N @ R)[j := v] = N[j := v] @ R" for v
    by (simp add: list_update_append1)
  show ?thesis
    by (simp add: interpolateTrailingEdge_def e u Let_def)
qed

lemma scan_old_head:
  assumes "\<forall>u \<in> set R. fin_time u \<and> time_of u < T"
  shows "scan R (Fin T) k = k"
proof (cases R)
  case Nil
  then show ?thesis by simp
next
  case (Cons r rs)
  with assms have "fin_time r" "time_of r < T" by simp_all
  then have "js_lt (time (snd r)) (Fin T)" by (simp add: fin_time_conv)
  with Cons show ?thesis by simp
qed

lemma final_pair_drop_old:
  assumes ne: "N \<noteq> []"
    and w: "0 \<le> w"
    and fN: "list_all fin_time N"
    and old: "\<forall>u \<in> set R. fin_time u \<and> time_of u \<le> time_of (N ! 0) - w - 50"
  shows "final_pair (N @ R) (Fin w) = final_pair N (Fin w)"
proof -
  let ?T = "time_of (N ! 0) - w"
  from ne fN have t0: "time (snd (N ! 0)) = Fin (time_of (N ! 0))"
    by (simp add: list_all_length fin_time_conv [symmetric])
  from ne have hd: "hd (N @ R) = N ! 0" "hd N = N ! 0" "tl (N @ R) = tl N @ R"
    by (simp_all add: hd_conv_nth hd_append)
  have lim: "js_sub (time (snd (N ! 0))) (Fin w) = Fin ?T"
    by (simp add: t0)
  have b: "1 \<le> scan (tl N) (Fin ?T) 1" "scan (tl N) (Fin ?T) 1 \<le> length N"
    using scan_bounds [of 1 "tl N" "Fin ?T"] ne by (simp_all add: Suc_leI)
  from old have old': "\<forall>u \<in> set R. fin_time u \<and> time_of u < ?T" by fastforce
  have sc: "scan (tl N @ R) (Fin ?T) 1 = scan (tl N) (Fin ?T) 1"
  proof (cases "scan (tl N) (Fin ?T) 1 < 1 + length (tl N)")
    case True
    then show ?thesis by (simp add: scan_append)
  next
    case False
    with b ne have "scan (tl N) (Fin ?T) 1 = 1 + length (tl N)" by simp
    with False show ?thesis
      by (simp add: scan_append scan_old_head [OF old'])
  qed
  have bi: "boundary_index (N @ R) (Fin w) = boundary_index N (Fin w)"
    by (simp only: boundary_index_def hd lim sc)
  let ?jb = "boundary_index N (Fin w)"
  have jb: "?jb = scan (tl N) (Fin ?T) 1 - 1"
    by (simp only: boundary_index_def hd lim)
  have jl: "?jb < length N" using ne by (rule boundary_index_less)
  obtain N' where i: "interpolateTrailingEdge N ?jb (Fin w) (Fin 50) = Inr N'"
    and len: "length N' = length N"
    using interpolate_total [OF jl] by blast
  have i2: "interpolateTrailingEdge (N @ R) ?jb (Fin w) (Fin 50) = Inr (N' @ R)"
  proof (cases "Suc ?jb < length N")
    case True
    then show ?thesis by (simp add: interpolate_append i)
  next
    case False
    with jl have last: "Suc ?jb = length N" by simp
    then have "elem_at N (Suc ?jb) = None" by (simp add: elem_at_def)
    then have "interpolateTrailingEdge N ?jb (Fin w) (Fin 50) = Inr N"
      by (simp add: interpolate_keep)
    with i have N': "N' = N" by simp
    have inw: "?T \<le> time_of (N ! ?jb)"
    proof (cases "?jb = 0")
      case True
      with w show ?thesis by simp
    next
      case False
      then have "?jb - 1 < scan (tl N) (Fin ?T) 1 - 1" by (simp add: jb)
      then have "\<not> js_lt (time (snd (tl N ! (?jb - 1)))) (Fin ?T)"
        using scan_spec [of "tl N" "Fin ?T" 1] by blast
      moreover have "tl N ! (?jb - 1) = N ! ?jb"
        using False jl by (simp add: nth_tl)
      moreover from fN jl have "time (snd (N ! ?jb)) = Fin (time_of (N ! ?jb))"
        by (simp add: list_all_length fin_time_conv [symmetric])
      ultimately show ?thesis by simp
    qed
    have "interpolateTrailingEdge (N @ R) ?jb (Fin w) (Fin 50) = Inr (N @ R)"
    proof (cases R)
      case Nil
      with \<open>interpolateTrailingEdge N ?jb (Fin w) (Fin 50) = Inr N\<close> show ?thesis by simp
    next
      case (Cons r rs)
      with old have fr: "fin_time r" and tr: "time_of r \<le> ?T - 50" by simp_all
      from fN jl have tb: "time (snd (N ! ?jb)) = Fin (time_of (N ! ?jb))"
        by (simp add: list_all_length fin_time_conv [symmetric])
      from fr have tt: "time (snd r) = Fin (time_of r)" by (simp add: fin_time_conv)
      have eb: "elem_at (N @ R) ?jb = Some (N ! ?jb)" using jl by (rule elem_at_append1)
      have et: "elem_at (N @ R) (Suc ?jb) = Some r"
        using last Cons by (simp add: elem_at_def nth_append)
      have "\<not> js_lt (js_sub (time (snd (N ! ?jb))) (time (snd r))) (Fin 50)"
        using inw tr by (simp add: tb tt)
      with eb et show ?thesis by (intro interpolate_keep) blast
    qed
    with N' show ?thesis by simp
  qed
  from jl len ne have e: "elem_at (N' @ R) 0 = elem_at N' 0" "elem_at (N' @ R) ?jb = elem_at N' ?jb"
    by (simp_all add: elem_at_def nth_append)
  show ?thesis
    by (simp add: final_pair_def bi i i2 e)
qed

lemma filter_defined_fill_hole:
  assumes "m < length a" and "a ! m = None"
  shows "filter_defined a = filter_from 0 (take m a) @ filter_from (Suc m) (drop (Suc m) a)"
    and "filter_defined (a[m := Some s]) =
           filter_from 0 (take m a) @ (m, s) # filter_from (Suc m) (drop (Suc m) a)"
proof -
  from assms have "a = take m a @ None # drop (Suc m) a"
    by (metis id_take_nth_drop)
  then have "filter_defined a = filter_from 0 (take m a @ None # drop (Suc m) a)"
    by (simp add: filter_defined_def)
  also have "\<dots> = filter_from 0 (take m a) @ filter_from (Suc m) (drop (Suc m) a)"
    using assms(1) by (simp add: filter_from_append min_def)
  finally show "filter_defined a = filter_from 0 (take m a) @ filter_from (Suc m) (drop (Suc m) a)" .
  from assms(1) have "a[m := Some s] = take m a @ Some s # drop (Suc m) a"
    by (rule upd_conv_take_nth_drop)
  then have "filter_defined (a[m := Some s]) = filter_from 0 (take m a @ Some s # drop (Suc m) a)"
    by (simp add: filter_defined_def)
  also have "\<dots> = filter_from 0 (take m a) @ (m, s) # filter_from (Suc m) (drop (Suc m) a)"
    using assms(1) by (simp add: filter_from_append min_def)
  finally show "filter_defined (a[m := Some s]) =
           filter_from 0 (take m a) @ (m, s) # filter_from (Suc m) (drop (Suc m) a)" .
qed

lemma write_anchor_fill_hole:
  assumes m: "m < length buffer" "get_at buffer m = None" "is_array_index m"
    and ma: "m \<noteq> anchor_index buffer i" "m \<noteq> anchor_index buffer i - 1"
  shows "write_anchor (set_at buffer m s) (Idx i) now = (write_anchor buffer (Idx i) now)[m := Some s]"
    and "m < length (write_anchor buffer (Idx i) now)"
    and "write_anchor buffer (Idx i) now ! m = None"
proof -
  let ?i = "anchor_index buffer i"
  from m have b2: "set_at buffer m s = buffer[m := Some s]" by (simp add: set_at_def)
  have ai: "anchor_index (buffer[m := Some s]) i = ?i" by (simp add: anchor_index_def)
  from m ma have "get_at (buffer[m := Some s]) (?i - 1) = get_at buffer (?i - 1)"
    by (simp add: get_at_def)
  then have as: "anchor_sample (buffer[m := Some s]) ?i now = anchor_sample buffer ?i now"
    by (simp add: anchor_sample_def)
  have sw: "set_at (buffer[m := Some s]) ?i v = (set_at buffer ?i v)[m := Some s]" for v
    using m ma by (simp add: set_at_def list_update_swap list_update_append1)
  show "write_anchor (set_at buffer m s) (Idx i) now = (write_anchor buffer (Idx i) now)[m := Some s]"
    by (simp add: write_anchor_def Let_def b2 ai as sw)
  show "m < length (write_anchor buffer (Idx i) now)"
    using m by (simp add: write_anchor_def Let_def length_set_at)
  from m ma have "get_at (set_at buffer ?i (anchor_sample buffer ?i now)) m = None"
    by (simp add: get_at_set_at_other)
  then show "write_anchor buffer (Idx i) now ! m = None"
    using \<open>m < length (write_anchor buffer (Idx i) now)\<close>
    by (simp add: write_anchor_def Let_def get_at_def)
qed

lemma old_sample_alone:
  assumes e: "sorted_samples buffer (Idx i) now = []"
    and m: "m < length buffer" "get_at buffer m = None" "is_array_index m"
    and ma: "m \<noteq> anchor_index buffer i" "m \<noteq> anchor_index buffer i - 1"
    and ts: "time s = Fin ts"
  shows "\<exists>st. computeVelocity (set_at buffer m s) (Idx i) msec now = Inr (zero_velocity, st)"
proof -
  let ?a = "write_anchor buffer (Idx i) now"
  have wa: "write_anchor (set_at buffer m s) (Idx i) now = ?a[m := Some s]"
    "m < length ?a" "?a ! m = None"
    using m ma by (rule write_anchor_fill_hole)+
  have fh: "filter_defined ?a = filter_from 0 (take m ?a) @ filter_from (Suc m) (drop (Suc m) ?a)"
    "filter_defined (?a[m := Some s]) =
       filter_from 0 (take m ?a) @ (m, s) # filter_from (Suc m) (drop (Suc m) ?a)"
    using wa(2,3) by (rule filter_defined_fill_hole)+
  from e have "filter_defined ?a = []" by (simp add: sorted_samples_def)
  with fh have "filter_defined (?a[m := Some s]) = [(m, s)]" by simp
  then have S: "sorted_samples (set_at buffer m s) (Idx i) now = [(m, s)]"
    by (simp add: sorted_samples_def wa(1))
  show ?thesis
    by (simp add: computeVelocity_alt S boundary_index_def interpolateTrailingEdge_def
        elem_at_def velocity_between_def elapsed_of_def ts)
qed

lemma anchored_fin_time:
  assumes "list_all (\<lambda>v. is_fin (time v)) (samples_of buffer)"
  shows "list_all fin_time (filter_defined (write_anchor buffer (Idx i) now))"
proof -
  have "fin_time e" if "e \<in> set (filter_defined (write_anchor buffer (Idx i) now))" for e
  proof -
    from that consider "e = (anchor_index buffer i, anchor_sample buffer (anchor_index buffer i) now)"
      | "get_at buffer (fst e) = Some (snd e)"
      by (auto simp: anchored_mem)
    then show ?thesis
    proof cases
      case 1
      then show ?thesis by (simp add: fin_time_def)
    next
      case 2
      then have "snd e \<in> set (samples_of buffer)" using samples_of_mem by blast
      with assms show ?thesis by (simp add: list_all_iff fin_time_def)
    qed
  qed
  then show ?thesis by (simp add: list_all_iff)
qed

lemma old_sample_same_pair:
  assumes fin: "list_all (\<lambda>v. is_fin (time v)) (samples_of buffer)"
    and ne1: "sorted_samples buffer (Idx i) now \<noteq> []"
    and m: "m < length buffer" "get_at buffer m = None" "is_array_index m"
    and ma: "m \<noteq> anchor_index buffer i" "m \<noteq> anchor_index buffer i - 1"
    and w: "0 \<le> w"
    and ts: "time s = Fin ts"
    and old: "ts \<le> time_of (hd (sorted_samples buffer (Idx i) now)) - w - 50"
  shows "boundary_pair (set_at buffer m s) (Idx i) (Fin w) now =
           boundary_pair buffer (Idx i) (Fin w) now"
proof -
  let ?a = "write_anchor buffer (Idx i) now"
  let ?C1 = "filter_defined ?a"
  let ?C2 = "filter_defined (?a[m := Some s])"
  let ?S1 = "sorted_samples buffer (Idx i) now"
  let ?S2 = "sorted_samples (set_at buffer m s) (Idx i) now"
  let ?c = "time_of (hd ?S1) - w - 50"
  let ?q = "\<lambda>u. ?c < time_of u"
  have wa: "write_anchor (set_at buffer m s) (Idx i) now = ?a[m := Some s]"
    "m < length ?a" "?a ! m = None"
    using m ma by (rule write_anchor_fill_hole)+
  have S2: "?S2 = array_sort compare_time ?C2"
    by (simp add: sorted_samples_def wa(1))
  have S1: "?S1 = array_sort compare_time ?C1"
    by (simp add: sorted_samples_def)
  have fh: "?C1 = filter_from 0 (take m ?a) @ filter_from (Suc m) (drop (Suc m) ?a)"
    "?C2 = filter_from 0 (take m ?a) @ (m, s) # filter_from (Suc m) (drop (Suc m) ?a)"
    using wa(2,3) by (rule filter_defined_fill_hole)+
  have tms: "time_of (m, s) = ts" by (simp add: time_of_def ts)
  have f1: "list_all fin_time ?C1" using fin by (rule anchored_fin_time)
  have f2: "list_all fin_time ?C2"
    using f1 by (simp add: fh fin_time_def ts)
  have d1: "distinct (map fst ?C1)" and d2: "distinct (map fst ?C2)"
    by (rule distinct_filter_defined)+
  have srt1: "sorted_wrt (\<lambda>u v. time_of v \<le> time_of u) ?S1"
    unfolding S1 using f1 d1 by (rule sorted_array_sort)
  have srt2: "sorted_wrt (\<lambda>u v. time_of v \<le> time_of u) ?S2"
    unfolding S2 using f2 d2 by (rule sorted_array_sort)
  have "filter ?q ?C2 = filter ?q ?C1"
    using old by (simp add: fh tms)
  then have N: "filter ?q ?S2 = filter ?q ?S1"
    by (simp add: S1 S2 filter_array_sort f1 f2 d1 d2)
  let ?N = "filter ?q ?S1"
  let ?R1 = "filter (\<lambda>u. \<not> ?q u) ?S1" and ?R2 = "filter (\<lambda>u. \<not> ?q u) ?S2"
  have sp1: "?S1 = ?N @ ?R1" using srt1 by (rule sorted_split)
  have sp2: "?S2 = ?N @ ?R2" using sorted_split [OF srt2, of ?c] by (simp only: N)
  from ne1 have "hd ?S1 \<in> set ?S1" by simp
  moreover from w have "?q (hd ?S1)" by simp
  ultimately have "hd ?S1 \<in> set ?N" by simp
  then have neN: "?N \<noteq> []" by (metis empty_iff list.set(1))
  with sp1 have "hd ?S1 = hd ?N" by (metis hd_append2)
  with neN have h0: "time_of (hd ?S1) = time_of (?N ! 0)" by (simp add: hd_conv_nth)
  have fN: "list_all fin_time ?N"
    using f1 by (simp only: S1 list_all_iff set_filter set_array_sort) blast
  have in1: "fin_time u" if "u \<in> set ?S1" for u
    using f1 that by (simp add: S1 list_all_iff)
  have in2: "fin_time u" if "u \<in> set ?S2" for u
    using f2 that by (simp add: S2 list_all_iff)
  have o1: "\<forall>u \<in> set ?R1. fin_time u \<and> time_of u \<le> time_of (?N ! 0) - w - 50"
  proof
    fix u
    assume "u \<in> set ?R1"
    then have "u \<in> set ?S1" and "\<not> ?c < time_of u" by simp_all
    with in1 show "fin_time u \<and> time_of u \<le> time_of (?N ! 0) - w - 50"
      by (simp only: h0 [symmetric]) simp
  qed
  have o2: "\<forall>u \<in> set ?R2. fin_time u \<and> time_of u \<le> time_of (?N ! 0) - w - 50"
  proof
    fix u
    assume "u \<in> set ?R2"
    then have "u \<in> set ?S2" and "\<not> ?c < time_of u" by simp_all
    with in2 show "fin_time u \<and> time_of u \<le> time_of (?N ! 0) - w - 50"
      by (simp only: h0 [symmetric]) simp
  qed
  have "final_pair ?S1 (Fin w) = final_pair (?N @ ?R1) (Fin w)"
    using sp1 by simp
  also have "\<dots> = final_pair ?N (Fin w)"
    using neN w fN o1 by (rule final_pair_drop_old)
  also have "\<dots> = final_pair (?N @ ?R2) (Fin w)"
    using neN w fN o2 by (rule final_pair_drop_old [symmetric])
  also have "\<dots> = final_pair ?S2 (Fin w)"
    using sp2 by simp
  finally have fp: "final_pair ?S2 (Fin w) = final_pair ?S1 (Fin w)" by simp
  have ne2: "?S2 \<noteq> []"
    by (simp add: S2 fh(2))
  from ne1 ne2 fp show ?thesis
    by (simp only: boundary_pair_final if_False)
qed

section \<open>Facts about the return taken and about a second call\<close>

lemma computeVelocity_traced_project:
  "computeVelocity buffer c msec now = map_sum id snd (computeVelocity_traced buffer c msec now)"
  unfolding computeVelocity_def computeVelocity_traced_def velocity_between_def elapsed_of_def
    Let_def
  by (simp split: sum.splits option.splits)

lemma computeVelocity_traced_first:
  "map_sum id fst (computeVelocity_traced buffer c msec now) = Inr FirstReturn \<longleftrightarrow>
     filter_defined (write_anchor buffer c now) = []"
  unfolding computeVelocity_traced_def Let_def
  by (simp split: sum.splits option.splits)

lemma computeVelocity_traced_empty:
  assumes "is_array_index (anchor_index (replicate n None) i)"
  shows "computeVelocity_traced (replicate n None) (Idx i) msec now =
     Inr (SecondReturn, zero_velocity,
          set_at (replicate n None) (anchor_index (replicate n None) i)
            \<lparr>x = NaN, y = NaN, time = Fin now\<rparr>)"
proof -
  let ?A = "\<lparr>x = NaN, y = NaN, time = Fin now\<rparr>"
  let ?i = "anchor_index (replicate n None) i"
  have w: "write_anchor (replicate n None) (Idx i) now = set_at (replicate n None) ?i ?A"
    by (simp add: write_anchor_def Let_def anchor_sample_empty)
  have f: "filter_defined (set_at (replicate n None) ?i ?A) = [(?i, ?A)]"
    using assms by (rule filter_defined_anchor_only)
  have l: "?i < length (set_at (replicate n None) ?i ?A)"
    using assms by (simp add: length_set_at)
  have g: "set_at (replicate n None) ?i ?A ! ?i = Some ?A"
    using get_at_set_at_same [OF assms, of "replicate n None" ?A] l
    by (simp add: get_at_def)
  have u: "(set_at (replicate n None) ?i ?A)[?i := Some ?A] = set_at (replicate n None) ?i ?A"
    using g by (metis list_update_id)
  show ?thesis
    unfolding computeVelocity_traced_def Let_def w f
    by (simp add: interpolateTrailingEdge_def elem_at_def u)
qed

lemma write_back_id:
  assumes "set ts \<subseteq> set (filter_defined a)"
  shows "write_back ts a = a"
  using assms
proof (induction ts)
  case Nil
  show ?case by simp
next
  case (Cons e ts)
  obtain k s where e: "e = (k, s)" by (cases e)
  with Cons.prems have "get_at a k = Some s" by (simp add: filter_defined_mem)
  then have "k < length a" and "a ! k = Some s"
    by (simp_all add: get_at_def split: if_splits)
  then have "a[k := Some s] = a" by (metis list_update_id)
  with Cons e show ?case by simp
qed

lemma set_at_idem: "set_at (set_at a i v) i v = set_at a i v"
proof (cases "is_array_index i")
  case False
  then show ?thesis by simp
next
  case True
  then have l: "i < length (set_at a i v)" by (simp add: length_set_at)
  from True have "get_at (set_at a i v) i = Some v" by simp
  with l have "set_at a i v ! i = Some v" by (simp add: get_at_def)
  then have "(set_at a i v)[i := Some v] = set_at a i v" by (metis list_update_id)
  with True l show ?thesis by (simp add: set_at_def [of "set_at a i v"])
qed

lemma write_anchor_idem:
  assumes "i \<noteq> 0"
  shows "write_anchor (write_anchor buffer (Idx i) now) (Idx i) now = write_anchor buffer (Idx i) now"
proof -
  let ?A = "anchor_sample buffer i now"
  from assms have a: "anchor_index b i = i" for b :: "slot list"
    by (simp add: anchor_index_def)
  from assms have "anchor_sample (set_at buffer i ?A) i now = ?A"
    by (simp add: anchor_sample_def get_at_set_at_other)
  then show ?thesis
    by (simp add: write_anchor_def Let_def a set_at_idem)
qed

lemma computeVelocity_again:
  assumes cv: "computeVelocity buffer (Idx i) msec now = Inr (v, st)"
    and i: "i \<noteq> 0"
    and keep: "interpolateTrailingEdge (sorted_samples buffer (Idx i) now)
        (boundary_index (sorted_samples buffer (Idx i) now) msec) msec (Fin 50) =
      Inr (sorted_samples buffer (Idx i) now)"
  shows "st = write_anchor buffer (Idx i) now"
    and "computeVelocity st (Idx i) msec now = Inr (v, st)"
proof -
  let ?a = "write_anchor buffer (Idx i) now"
  let ?S = "sorted_samples buffer (Idx i) now"
  show st: "st = ?a"
  proof (cases "?S = []")
    case True
    with cv show ?thesis by (simp add: computeVelocity_alt)
  next
    case False
    with cv keep have "st = write_back ?S ?a"
      by (auto simp: computeVelocity_alt split: option.splits)
    moreover have "set ?S \<subseteq> set (filter_defined ?a)"
      by (simp add: sorted_samples_def)
    ultimately show ?thesis by (simp add: write_back_id)
  qed
  have "write_anchor st (Idx i) now = ?a"
    unfolding st using i by (rule write_anchor_idem)
  then have "computeVelocity st (Idx i) msec now = computeVelocity buffer (Idx i) msec now"
    by (simp add: computeVelocity_def)
  with cv show "computeVelocity st (Idx i) msec now = Inr (v, st)" by simp
qed

section \<open>Facts about rounding\<close>

lemma round_half_even_error: "\<bar>of_int (round_half_even r) - r\<bar> \<le> 1 / 2"
proof -
  have "of_int \<lfloor>r\<rfloor> \<le> r" "r < of_int \<lfloor>r\<rfloor> + 1" by linarith+
  then show ?thesis
    by (auto simp: round_half_even_def Let_def abs_le_iff)
qed

lemma round_half_even_near:
  assumes "\<bar>r - of_int n\<bar> < 1 / 2"
  shows "round_half_even r = n"
proof -
  from assms have "of_int n - 1 / 2 < r" "r < of_int n + 1 / 2" by linarith+
  then have "\<lfloor>r\<rfloor> = n \<and> r - of_int n < 1 / 2 \<or> \<lfloor>r\<rfloor> = n - 1 \<and> 1 / 2 < r - of_int (n - 1)"
    by (cases "of_int n \<le> r") (auto simp: floor_eq_iff)
  then show ?thesis
    by (auto simp: round_half_even_def Let_def)
qed

lemma round_half_even_of_int [simp]: "round_half_even (of_int n) = n"
  by (rule round_half_even_near) simp

lemma exponent_bounds:
  assumes "v \<noteq> 0"
  shows "2 powi \<lfloor>log 2 \<bar>v\<bar>\<rfloor> \<le> \<bar>v\<bar>" and "\<bar>v\<bar> < 2 powi (\<lfloor>log 2 \<bar>v\<bar>\<rfloor> + 1)"
proof -
  from assms have p: "0 < \<bar>v\<bar>" by simp
  from floor_log_eq_powr_iff [OF p, of 2 "\<lfloor>log 2 \<bar>v\<bar>\<rfloor>"]
  have "2 powr (of_int \<lfloor>log 2 \<bar>v\<bar>\<rfloor>) \<le> \<bar>v\<bar>" "\<bar>v\<bar> < 2 powr (of_int (\<lfloor>log 2 \<bar>v\<bar>\<rfloor> + 1))"
    by simp_all
  then show "2 powi \<lfloor>log 2 \<bar>v\<bar>\<rfloor> \<le> \<bar>v\<bar>" and "\<bar>v\<bar> < 2 powi (\<lfloor>log 2 \<bar>v\<bar>\<rfloor> + 1)"
    by (simp_all only: powr_real_of_int' [of 2, simplified])
qed

lemma exponent_eq:
  assumes "2 powi e \<le> \<bar>v\<bar>" and "\<bar>v\<bar> < 2 powi (e + 1)"
  shows "\<lfloor>log 2 \<bar>v\<bar>\<rfloor> = e"
proof -
  have "(0::real) < 2 powi e" by simp
  with assms(1) have p: "0 < \<bar>v\<bar>" by linarith
  have "2 powr (of_int e) \<le> \<bar>v\<bar>" "\<bar>v\<bar> < 2 powr (of_int (e + 1))"
    using assms by (simp_all only: powr_real_of_int' [of 2, simplified])
  with floor_log_eq_powr_iff [OF p, of 2 e] show ?thesis by simp
qed

lemma fl_eq:
  assumes "2 powi e \<le> \<bar>v\<bar>" and "\<bar>v\<bar> < 2 powi (e + 1)"
  shows "fl v = of_int (round_half_even (v * 2 powi (52 - e))) * 2 powi (e - 52)"
proof -
  have "(0::real) < 2 powi e" by simp
  with assms(1) have "0 < \<bar>v\<bar>" by linarith
  then have "v \<noteq> 0" by simp
  then show ?thesis
    by (simp add: fl_def Let_def exponent_eq [OF assms])
qed

lemma fl_near:
  assumes "2 powi e \<le> \<bar>v\<bar>" and "\<bar>v\<bar> < 2 powi (e + 1)"
    and "\<bar>v * 2 powi (52 - e) - of_int n\<bar> < 1 / 2"
  shows "fl v = of_int n * 2 powi (e - 52)"
  by (simp add: fl_eq [OF assms(1,2)] round_half_even_near [OF assms(3)])

lemma scale_inverse: "(2::real) powi (e - 52) = 1 / 2 powi (52 - e)"
proof -
  have "(2::real) powi (e - 52) = 2 powi (- (52 - e))" by simp
  also have "\<dots> = 1 / 2 powi (52 - e)" by (rule power_int_minus_divide)
  finally show ?thesis .
qed

lemma fl_error: "\<bar>fl v - v\<bar> \<le> \<bar>v\<bar> / 2 ^ 53"
proof (cases "v = 0")
  case True
  then show ?thesis by (simp add: fl_def)
next
  case False
  define e where "e = \<lfloor>log 2 \<bar>v\<bar>\<rfloor>"
  define s :: real where "s = 2 powi (52 - e)"
  define n where "n = round_half_even (v * s)"
  have s: "0 < s" by (simp add: s_def)
  have lo: "2 powi e \<le> \<bar>v\<bar>" unfolding e_def using False by (rule exponent_bounds)
  have f: "fl v = of_int n / s"
    using False by (simp add: fl_def Let_def e_def [symmetric] n_def s_def scale_inverse)
  have "\<bar>of_int n - v * s\<bar> \<le> 1 / 2" unfolding n_def by (rule round_half_even_error)
  then have "\<bar>of_int n - v * s\<bar> / s \<le> (1 / 2) / s"
    using s by (intro divide_right_mono) simp_all
  moreover have "\<bar>of_int n - v * s\<bar> / s = \<bar>fl v - v\<bar>"
  proof -
    have "fl v - v = (of_int n - v * s) / s" using s by (simp add: f field_simps)
    then show ?thesis using s by (simp add: abs_divide)
  qed
  moreover have "(1 / 2) / s = 2 powi e / 2 ^ 53"
  proof -
    have "(2::real) powi (52 - e) = 2 powi 52 / 2 powi e" by (rule power_int_diff) simp
    then show ?thesis by (simp add: s_def)
  qed
  ultimately have "\<bar>fl v - v\<bar> \<le> 2 powi e / 2 ^ 53" by simp
  also have "\<dots> \<le> \<bar>v\<bar> / 2 ^ 53" using lo by (simp add: divide_right_mono)
  finally show ?thesis .
qed

lemma fl_exact:
  assumes "v * 2 powi (52 - \<lfloor>log 2 \<bar>v\<bar>\<rfloor>) = of_int m"
  shows "fl v = v"
proof (cases "v = 0")
  case True
  then show ?thesis by (simp add: fl_def)
next
  case False
  let ?s = "(2::real) powi (52 - \<lfloor>log 2 \<bar>v\<bar>\<rfloor>)"
  have s: "0 < ?s" by simp
  from False have "fl v = of_int m / ?s"
    by (simp add: fl_def Let_def assms scale_inverse)
  also have "\<dots> = v" using s by (simp add: assms [symmetric])
  finally show ?thesis .
qed

lemma fl_int:
  assumes "\<bar>n\<bar> \<le> 2 ^ 53"
  shows "fl (of_int n) = of_int n"
proof (cases "n = 0")
  case True
  then show ?thesis by (simp add: fl_def)
next
  case False
  let ?v = "real_of_int n"
  let ?e = "\<lfloor>log 2 \<bar>?v\<bar>\<rfloor>"
  from False have v: "?v \<noteq> 0" by simp
  note b = exponent_bounds [OF v]
  show ?thesis
  proof (cases "\<bar>n\<bar> = 2 ^ 53")
    case True
    then have a: "\<bar>?v\<bar> = 2 ^ 53" by (metis of_int_abs of_int_numeral of_int_power)
    have "?e = 53"
      by (rule exponent_eq) (simp_all add: a)
    moreover from True have "n = 2 ^ 53 \<or> n = - (2 ^ 53)" by (auto simp: abs_if split: if_splits)
    ultimately have "?v * 2 powi (52 - ?e) = of_int (n div 2)"
      by auto
    then show ?thesis by (rule fl_exact)
  next
    case neq: False
    with assms have "\<bar>n\<bar> < 2 ^ 53" by simp
    then have "\<bar>?v\<bar> < 2 ^ 53" by (metis of_int_abs of_int_less_iff of_int_numeral of_int_power)
    with b(1) have "(2::real) powi ?e < 2 powi 53" by simp
    then have "?e < 53"
      by (metis not_le power_int_increasing one_le_numeral not_less)
    then have "0 \<le> 52 - ?e" by simp
    then have "(2::real) powi (52 - ?e) = of_int (2 ^ nat (52 - ?e))"
      by (simp add: power_int_def)
    then have "?v * 2 powi (52 - ?e) = of_int (n * 2 ^ nat (52 - ?e))"
      by simp
    then show ?thesis by (rule fl_exact)
  qed
qed


lemma rounded_Fin [simp]: "rounded rnd (Fin a) = Fin (rnd a)"
  by (simp add: rounded_def)

lemma rounded_id [simp]: "rounded id v = v"
  by (cases v) (simp_all add: rounded_def)

lemma interpolateTrailingEdge_fields:
  assumes "elem_at buffer (Suc j) = Some trailing" and "elem_at buffer j = Some mintime"
    and "elem_at buffer 0 = Some mostrecent"
    and "js_lt (js_sub (time (snd mintime)) (time (snd trailing))) th"
  shows "interpolateTrailingEdge buffer j msec th =
    Inr (buffer[j := (fst mintime,
           interpolated_fields id (snd mostrecent) msec (snd mintime) (snd trailing))])"
  using assms by (simp add: interpolateTrailingEdge_def interpolated_fields_def Let_def)

lemma weight_error:
  assumes "0 \<le> q" and "q \<le> 1"
  shows "\<bar>fl (1 - fl q) - (1 - q)\<bar> \<le> 2 / 2 ^ 53 + 1 / 2 ^ 106"
proof -
  define u :: real where "u = 1 / 2 ^ 53"
  have u: "0 \<le> u" by (simp add: u_def)
  have uu: "u * u = 1 / 2 ^ 106" by (simp add: u_def)
  have "\<bar>fl q - q\<bar> \<le> \<bar>q\<bar> * u" using fl_error [of q] by (simp add: u_def)
  also have "\<dots> \<le> 1 * u" using assms u by (intro mult_right_mono) simp_all
  finally have e1: "\<bar>fl q - q\<bar> \<le> u" by simp
  with assms have z: "\<bar>1 - fl q\<bar> \<le> 1 + u" by linarith
  have "\<bar>fl (1 - fl q) - (1 - fl q)\<bar> \<le> \<bar>1 - fl q\<bar> * u"
    using fl_error [of "1 - fl q"] by (simp add: u_def)
  also have "\<dots> \<le> (1 + u) * u" using z u by (intro mult_right_mono) simp_all
  finally have e2: "\<bar>fl (1 - fl q) - (1 - fl q)\<bar> \<le> u + u * u" by (simp add: algebra_simps)
  from e1 e2 have "\<bar>fl (1 - fl q) - (1 - q)\<bar> \<le> 2 * u + u * u" by linarith
  then show ?thesis by (simp only: uu) (simp add: u_def)
qed

lemma product_error:
  assumes w: "\<bar>w - a\<bar> \<le> 2 / 2 ^ 53 + 1 / 2 ^ 106"
    and a: "0 \<le> a" "a \<le> 1"
    and v: "\<bar>v\<bar> \<le> M"
  shows "\<bar>fl (w * v) - a * v\<bar> \<le> (3 / 2 ^ 53 + 3 / 2 ^ 106 + 1 / 2 ^ 159) * M"
proof -
  define u :: real where "u = 1 / 2 ^ 53"
  define c where "c = 2 * u + u * u"
  have u: "0 \<le> u" by (simp add: u_def)
  have c: "0 \<le> c" by (simp add: c_def u_def)
  from v have M: "0 \<le> M" by linarith
  from w have wc: "\<bar>w - a\<bar> \<le> c" by (simp add: c_def u_def power2_eq_square)
  with a have w1: "\<bar>w\<bar> \<le> 1 + c" by linarith
  have wv: "\<bar>w * v\<bar> \<le> (1 + c) * M"
    unfolding abs_mult using w1 v c M by (intro mult_mono) simp_all
  have "\<bar>fl (w * v) - w * v\<bar> \<le> \<bar>w * v\<bar> * u"
    using fl_error [of "w * v"] by (simp add: u_def)
  also have "\<dots> \<le> ((1 + c) * M) * u" using wv u by (intro mult_right_mono) simp_all
  finally have e1: "\<bar>fl (w * v) - w * v\<bar> \<le> (1 + c) * u * M" by (simp add: algebra_simps)
  have "\<bar>w * v - a * v\<bar> = \<bar>w - a\<bar> * \<bar>v\<bar>"
    by (simp add: abs_mult [symmetric] algebra_simps)
  also have "\<dots> \<le> c * M" using wc v c M by (intro mult_mono) simp_all
  finally have e2: "\<bar>w * v - a * v\<bar> \<le> c * M" .
  from e1 e2 have "\<bar>fl (w * v) - a * v\<bar> \<le> (1 + c) * u * M + c * M" by linarith
  also have "(1 + c) * u * M + c * M = (3 / 2 ^ 53 + 3 / 2 ^ 106 + 1 / 2 ^ 159) * M"
    by (simp add: c_def u_def algebra_simps)
  finally show ?thesis .
qed

lemma combination_error:
  assumes w1: "\<bar>w1 - a\<bar> \<le> 2 / 2 ^ 53 + 1 / 2 ^ 106"
    and w2: "\<bar>w2 - b\<bar> \<le> 2 / 2 ^ 53 + 1 / 2 ^ 106"
    and a: "0 \<le> a" and b: "0 \<le> b" and ab: "a + b = 1"
    and vb: "\<bar>vb\<bar> \<le> M" and vt: "\<bar>vt\<bar> \<le> M"
  shows "\<bar>fl (fl (w1 * vb) + fl (w2 * vt)) - (a * vb + b * vt)\<bar> \<le> M / 2 ^ 50"
proof -
  define u :: real where "u = 1 / 2 ^ 53"
  define d :: real where "d = 3 / 2 ^ 53 + 3 / 2 ^ 106 + 1 / 2 ^ 159"
  define s where "s = fl (w1 * vb) + fl (w2 * vt)"
  define L where "L = a * vb + b * vt"
  have u: "0 \<le> u" by (simp add: u_def)
  from vb have M: "0 \<le> M" by linarith
  from a b ab have a1: "a \<le> 1" and b1: "b \<le> 1" by linarith+
  have p1: "\<bar>fl (w1 * vb) - a * vb\<bar> \<le> d * M"
    unfolding d_def using w1 a a1 vb by (rule product_error)
  have p2: "\<bar>fl (w2 * vt) - b * vt\<bar> \<le> d * M"
    unfolding d_def using w2 b b1 vt by (rule product_error)
  from p1 p2 have sL: "\<bar>s - L\<bar> \<le> 2 * d * M" unfolding s_def L_def by linarith
  have "\<bar>a * vb\<bar> \<le> a * M" "\<bar>b * vt\<bar> \<le> b * M"
    unfolding abs_mult using a b vb vt by (simp_all add: mult_left_mono)
  then have "\<bar>L\<bar> \<le> (a + b) * M" unfolding L_def by (simp add: algebra_simps)
  with ab have LM: "\<bar>L\<bar> \<le> M" by simp
  from sL LM have sM: "\<bar>s\<bar> \<le> M + 2 * d * M" by linarith
  have "\<bar>fl s - s\<bar> \<le> \<bar>s\<bar> * u" using fl_error [of s] by (simp add: u_def)
  also have "\<dots> \<le> (M + 2 * d * M) * u" using sM u by (intro mult_right_mono) simp_all
  finally have e: "\<bar>fl s - s\<bar> \<le> (u + 2 * d * u) * M" by (simp add: algebra_simps)
  from e sL have "\<bar>fl s - L\<bar> \<le> (u + 2 * d * u) * M + 2 * d * M" by linarith
  also have "\<dots> = (u + 2 * d * u + 2 * d) * M" by (simp add: algebra_simps)
  also have "\<dots> \<le> (1 / 2 ^ 50) * M"
  proof (rule mult_right_mono)
    show "u + 2 * d * u + 2 * d \<le> 1 / 2 ^ 50" by (simp add: u_def d_def)
    show "0 \<le> M" by (rule M)
  qed
  finally show ?thesis by (simp add: s_def L_def)
qed


lemma interpolated_fields_rounded:
  fixes tm w tb tt :: int
  assumes tb: "\<bar>tb\<bar> \<le> 2 ^ 53" and tt: "\<bar>tt\<bar> \<le> 2 ^ 53"
    and old: "tt < tm - w" and inw: "tm - w \<le> tb" and gap: "tb - tt < 50"
  defines "l \<equiv> real_of_int (tb - (tm - w)) / real_of_int (tb - tt)"
  shows "\<exists>x' y' t'.
      interpolated_fields fl \<lparr>x = xm, y = ym, time = Fin (of_int tm)\<rparr> (Fin (of_int w))
          \<lparr>x = Fin xb, y = Fin yb, time = Fin (of_int tb)\<rparr>
          \<lparr>x = Fin xt, y = Fin yt, time = Fin (of_int tt)\<rparr>
        = \<lparr>x = Fin x', y = Fin y', time = Fin t'\<rparr> \<and>
      \<bar>t' - of_int (tm - w)\<bar> \<le> max \<bar>of_int tb\<bar> \<bar>of_int tt\<bar> / 2 ^ 50 \<and>
      \<bar>x' - ((1 - l) * xb + l * xt)\<bar> \<le> max \<bar>xb\<bar> \<bar>xt\<bar> / 2 ^ 50 \<and>
      \<bar>y' - ((1 - l) * yb + l * yt)\<bar> \<le> max \<bar>yb\<bar> \<bar>yt\<bar> / 2 ^ 50"
    and "0 \<le> l" and "l < 1"
proof -
  define T where "T = tm - w"
  define g where "g = tb - tt"
  define a where "a = tb - T"
  define b where "b = T - tt"
  from old inw gap have g: "0 < g" "g < 50" and a: "0 \<le> a" "a < g" and b: "0 < b" "b \<le> g"
    and ab: "a + b = g"
    by (simp_all add: T_def g_def a_def b_def)
  from tb tt old inw have "\<bar>T\<bar> \<le> 2 ^ 53" by (simp add: T_def)
  then have r1: "fl (real_of_int tm - real_of_int w) = real_of_int T"
    using fl_int [of T] by (simp add: T_def)
  from g have "\<bar>g\<bar> \<le> 2 ^ 53" by simp
  then have r2: "fl (real_of_int tb - real_of_int tt) = real_of_int g"
    using fl_int [of g] by (simp add: g_def)
  from a g have "\<bar>a\<bar> \<le> 2 ^ 53" by simp
  then have r3: "fl (real_of_int tb - real_of_int T) = real_of_int a"
    using fl_int [of a] by (simp add: a_def)
  from b g have "\<bar>b\<bar> \<le> 2 ^ 53" by simp
  then have r4: "fl (real_of_int T - real_of_int tt) = real_of_int b"
    using fl_int [of b] by (simp add: b_def)
  have l: "l = real_of_int a / real_of_int g"
    by (simp add: l_def a_def g_def T_def)
  from g have g0: "real_of_int g \<noteq> 0" and gp: "0 < real_of_int g" by simp_all
  define q1 where "q1 = real_of_int a / real_of_int g"
  define q2 where "q2 = real_of_int b / real_of_int g"
  have q1: "0 \<le> q1" "q1 \<le> 1" and q2: "0 \<le> q2" "q2 \<le> 1"
    using a b gp by (simp_all add: q1_def q2_def)
  have q12: "q1 + q2 = 1"
    using ab g0 by (simp add: q1_def q2_def add_divide_distrib [symmetric])
  define w1 where "w1 = fl (1 - fl q1)"
  define w2 where "w2 = fl (1 - fl q2)"
  have c: "1 - q1 = q2" "1 - q2 = q1" using q12 by simp_all
  have e1: "\<bar>w1 - q2\<bar> \<le> 2 / 2 ^ 53 + 1 / 2 ^ 106"
    using weight_error [OF q1] by (simp only: w1_def c)
  have e2: "\<bar>w2 - q1\<bar> \<le> 2 / 2 ^ 53 + 1 / 2 ^ 106"
    using weight_error [OF q2] by (simp only: w2_def c)
  have q21: "q2 + q1 = 1" using q12 by simp
  define x' where "x' = fl (fl (w1 * xb) + fl (w2 * xt))"
  define y' where "y' = fl (fl (w1 * yb) + fl (w2 * yt))"
  define t' where "t' = fl (fl (w1 * real_of_int tb) + fl (w2 * real_of_int tt))"
  have abs_a: "\<bar>real_of_int a\<bar> = real_of_int a" and abs_b: "\<bar>real_of_int b\<bar> = real_of_int b"
    using a b by simp_all
  have eq: "interpolated_fields fl \<lparr>x = xm, y = ym, time = Fin (of_int tm)\<rparr> (Fin (of_int w))
          \<lparr>x = Fin xb, y = Fin yb, time = Fin (of_int tb)\<rparr>
          \<lparr>x = Fin xt, y = Fin yt, time = Fin (of_int tt)\<rparr>
        = \<lparr>x = Fin x', y = Fin y', time = Fin t'\<rparr>"
    unfolding interpolated_fields_def Let_def
    by (simp only: sample.select_convs js_sub_Fin rounded_Fin r1 r2 r3 r4 js_abs.simps abs_a abs_b
        js_div.simps g0 if_False js_mul.simps js_add.simps
        q1_def [symmetric] q2_def [symmetric] w1_def [symmetric] w2_def [symmetric]
        x'_def [symmetric] y'_def [symmetric] t'_def [symmetric])
  have lin: "q2 * real_of_int tb + q1 * real_of_int tt = real_of_int (tm - w)"
  proof -
    have "q2 * real_of_int tb + q1 * real_of_int tt =
        (real_of_int b * real_of_int tb + real_of_int a * real_of_int tt) / real_of_int g"
      by (simp add: q1_def q2_def add_divide_distrib)
    also have "real_of_int b * real_of_int tb + real_of_int a * real_of_int tt =
        real_of_int (b * tb + a * tt)" by simp
    also have "b * tb + a * tt = T * g"
      by (simp add: a_def b_def g_def algebra_simps)
    also have "real_of_int (T * g) / real_of_int g = real_of_int T"
      using g0 by simp
    finally show ?thesis by (simp add: T_def)
  qed
  have bt: "\<bar>t' - of_int (tm - w)\<bar> \<le> max \<bar>of_int tb\<bar> \<bar>of_int tt\<bar> / 2 ^ 50"
    unfolding t'_def lin [symmetric]
    using e1 e2 q2(1) q1(1) q21 by (rule combination_error) simp_all
  have q2l: "q2 = 1 - l" "q1 = l"
    using q12 by (simp_all add: l q1_def)
  have "\<bar>x' - (q2 * xb + q1 * xt)\<bar> \<le> max \<bar>xb\<bar> \<bar>xt\<bar> / 2 ^ 50"
    unfolding x'_def
    using e1 e2 q2(1) q1(1) q21 by (rule combination_error) simp_all
  then have bx: "\<bar>x' - ((1 - l) * xb + l * xt)\<bar> \<le> max \<bar>xb\<bar> \<bar>xt\<bar> / 2 ^ 50"
    by (simp only: q2l)
  have "\<bar>y' - (q2 * yb + q1 * yt)\<bar> \<le> max \<bar>yb\<bar> \<bar>yt\<bar> / 2 ^ 50"
    unfolding y'_def
    using e1 e2 q2(1) q1(1) q21 by (rule combination_error) simp_all
  then have "\<bar>y' - ((1 - l) * yb + l * yt)\<bar> \<le> max \<bar>yb\<bar> \<bar>yt\<bar> / 2 ^ 50"
    by (simp only: q2l)
  with eq bt bx show "\<exists>x' y' t'.
      interpolated_fields fl \<lparr>x = xm, y = ym, time = Fin (of_int tm)\<rparr> (Fin (of_int w))
          \<lparr>x = Fin xb, y = Fin yb, time = Fin (of_int tb)\<rparr>
          \<lparr>x = Fin xt, y = Fin yt, time = Fin (of_int tt)\<rparr>
        = \<lparr>x = Fin x', y = Fin y', time = Fin t'\<rparr> \<and>
      \<bar>t' - of_int (tm - w)\<bar> \<le> max \<bar>of_int tb\<bar> \<bar>of_int tt\<bar> / 2 ^ 50 \<and>
      \<bar>x' - ((1 - l) * xb + l * xt)\<bar> \<le> max \<bar>xb\<bar> \<bar>xt\<bar> / 2 ^ 50 \<and>
      \<bar>y' - ((1 - l) * yb + l * yt)\<bar> \<le> max \<bar>yb\<bar> \<bar>yt\<bar> / 2 ^ 50"
    by blast
  from q1 a gp show "0 \<le> l" "l < 1" by (simp_all add: l)
qed

lemma fl_0 [simp]: "fl 0 = 0" by (simp add: fl_def)

section \<open>Degenerate inputs\<close>

text \<open>
  C2. With every slot of the buffer empty, \<open>computeVelocity\<close> returns exactly
  \<open>{Vx: 0, Vy: 0}\<close>, whatever the cursor, the window and the clock are. On every input
  it returns a value (it never raises), and whenever the \<open>elapsed\<close> it computes from
  \<open>mostrecent\<close> and \<open>mintime\<close> after the interpolation is 0, the value it returns is
  \<open>{Vx: 0, Vy: 0}\<close>.
\<close>

theorem degenerate_input_zero:
  "(\<exists>st. computeVelocity (replicate n None) c msec now = Inr (zero_velocity, st)) \<and>
   (\<exists>v st. computeVelocity buffer c' msec' now' = Inr (v, st)) \<and>
   (boundary_pair buffer c' msec' now' = Some (mostrecent, mintime) \<and>
      elapsed_of mostrecent mintime = Fin 0 \<longrightarrow>
    (\<exists>st. computeVelocity buffer c' msec' now' = Inr (zero_velocity, st)))"
proof (intro conjI impI)
  show "\<exists>st. computeVelocity (replicate n None) c msec now = Inr (zero_velocity, st)"
    by (rule computeVelocity_empty)
  show "\<exists>v st. computeVelocity buffer c' msec' now' = Inr (v, st)"
    by (rule computeVelocity_total)
next
  assume a: "boundary_pair buffer c' msec' now' = Some (mostrecent, mintime) \<and>
    elapsed_of mostrecent mintime = Fin 0"
  then have "velocity_between mostrecent mintime = zero_velocity"
    by (simp add: velocity_between_def)
  with a computeVelocity_pair [of buffer c' msec' now' mostrecent mintime]
  show "\<exists>st. computeVelocity buffer c' msec' now' = Inr (zero_velocity, st)"
    by simp
qed

text \<open>
  An instance: two samples, then a release 150 ms after the last move with a window of
  100 ms. The anchor is alone in the window, \<open>elapsed\<close> is 0 and the result is zero.
\<close>

theorem degenerate_input_zero_witness:
  "boundary_pair [Some \<lparr>x = Fin 0, y = Fin 0, time = Fin 0\<rparr>,
                  Some \<lparr>x = Fin 10, y = Fin 0, time = Fin 100\<rparr>, None] (Idx 2) (Fin 100) 250
     = Some (\<lparr>x = Fin 10, y = Fin 0, time = Fin 250\<rparr>, \<lparr>x = Fin 10, y = Fin 0, time = Fin 250\<rparr>) \<and>
   elapsed_of \<lparr>x = Fin 10, y = Fin 0, time = Fin 250\<rparr> \<lparr>x = Fin 10, y = Fin 0, time = Fin 250\<rparr>
     = Fin 0 \<and>
   (\<exists>st. computeVelocity [Some \<lparr>x = Fin 0, y = Fin 0, time = Fin 0\<rparr>,
                  Some \<lparr>x = Fin 10, y = Fin 0, time = Fin 100\<rparr>, None] (Idx 2) (Fin 100) 250
     = Inr (zero_velocity, st))"
proof -
  let ?b = "[Some \<lparr>x = Fin 0, y = Fin 0, time = Fin 0\<rparr>,
             Some \<lparr>x = Fin 10, y = Fin 0, time = Fin 100\<rparr>, None]"
  let ?a = "\<lparr>x = Fin 10, y = Fin 0, time = Fin 250\<rparr>"
  have p: "boundary_pair ?b (Idx 2) (Fin 100) 250 = Some (?a, ?a)"
    by (simp add: eval_defs)
  have e: "elapsed_of ?a ?a = Fin 0"
    by simp
  from p e degenerate_input_zero [of 0 NaNIdx NaN 0 ?b "Idx 2" "Fin 100" 250 ?a ?a]
  show ?thesis by blast
qed

text \<open>
  C10, as the code has it. \<open>computeVelocity_traced\<close> is \<open>computeVelocity\<close> with the
  \<open>return\<close> taken. When the index that receives the anchor is an array index, the array
  has a defined element after the anchor step, the compacted array is not empty and the
  first \<open>return\<close> (under \<open>buffer.length === 0\<close>) is not the one taken; this is so at the
  end of every gesture of a session whose capacity is below \<open>2^32 - 1\<close>, also when the
  cursor has become \<open>NaN\<close>. On an all-empty buffer the anchor is then the only sample,
  \<open>elapsed\<close> is 0 and the zero result comes from the second \<open>return\<close> (under
  \<open>elapsed === 0\<close>).
\<close>

theorem compacted_nonempty_below_index_limit:
  "computeVelocity buffer c msec now =
     map_sum id snd (computeVelocity_traced buffer c msec now) \<and>
   (is_array_index (anchor_index buffer i) \<longrightarrow>
      filter_defined (write_anchor buffer (Idx i) now) \<noteq> [] \<and>
      map_sum id fst (computeVelocity_traced buffer (Idx i) msec now) \<noteq> Inr FirstReturn) \<and>
   (dragExitVelocity msec' = Inr s \<and> s_len s < 2 ^ 32 - 1 \<longrightarrow>
      map_sum id fst (computeVelocity_traced (s_buffer (gesture s ds)) (s_i (gesture s ds))
                        (s_msec (gesture s ds)) now) \<noteq> Inr FirstReturn) \<and>
   (is_array_index (anchor_index (replicate n None) i') \<longrightarrow>
      computeVelocity_traced (replicate n None) (Idx i') msec now =
        Inr (SecondReturn, zero_velocity,
             set_at (replicate n None) (anchor_index (replicate n None) i')
               \<lparr>x = NaN, y = NaN, time = Fin now\<rparr>))"
proof (intro conjI impI)
  show "computeVelocity buffer c msec now =
     map_sum id snd (computeVelocity_traced buffer c msec now)"
    by (rule computeVelocity_traced_project)
next
  assume "is_array_index (anchor_index buffer i)"
  then show ne: "filter_defined (write_anchor buffer (Idx i) now) \<noteq> []"
    by (rule anchored_nonempty)
  then show "map_sum id fst (computeVelocity_traced buffer (Idx i) msec now) \<noteq> Inr FirstReturn"
    by (simp only: computeVelocity_traced_first not_False_eq_True)
next
  assume a: "dragExitVelocity msec' = Inr s \<and> s_len s < 2 ^ 32 - 1"
  then have d: "dragExitVelocity msec' = Inr s" by simp
  from session_start(1,2) [OF d] have "session_ok (gesture s ds)"
    by (rule session_ok_gesture)
  moreover from a have "s_len (gesture s ds) < 2 ^ 32 - 1" by simp
  ultimately have "filter_defined (write_anchor (s_buffer (gesture s ds)) (s_i (gesture s ds)) now) \<noteq> []"
    by (rule session_ok_nonempty)
  then show "map_sum id fst (computeVelocity_traced (s_buffer (gesture s ds)) (s_i (gesture s ds))
                        (s_msec (gesture s ds)) now) \<noteq> Inr FirstReturn"
    by (simp only: computeVelocity_traced_first not_False_eq_True)
next
  assume "is_array_index (anchor_index (replicate n None) i')"
  then show "computeVelocity_traced (replicate n None) (Idx i') msec now =
        Inr (SecondReturn, zero_velocity,
             set_at (replicate n None) (anchor_index (replicate n None) i')
               \<lparr>x = NaN, y = NaN, time = Fin now\<rparr>)"
    by (rule computeVelocity_traced_empty)
qed

text \<open>
  An instance: a session with a window of 0 ms (capacity 0) and two mousemoves, which
  leave the cursor at \<open>NaN\<close>; and the empty buffer of capacity 3 with the cursor at 0.
\<close>

theorem compacted_nonempty_below_index_limit_witness:
  "dragExitVelocity (Fin 0) = Inr \<lparr>s_buffer = [], s_len = 0, s_i = Idx 0, s_msec = Fin 0\<rparr> \<and>
   s_i (gesture \<lparr>s_buffer = [], s_len = 0, s_i = Idx 0, s_msec = Fin 0\<rparr>
          [\<lparr>x = Fin 1, y = Fin 2, time = Fin 3\<rparr>, \<lparr>x = Fin 2, y = Fin 2, time = Fin 4\<rparr>]) = NaNIdx \<and>
   map_sum id fst (computeVelocity_traced
     (s_buffer (gesture \<lparr>s_buffer = [], s_len = 0, s_i = Idx 0, s_msec = Fin 0\<rparr>
          [\<lparr>x = Fin 1, y = Fin 2, time = Fin 3\<rparr>, \<lparr>x = Fin 2, y = Fin 2, time = Fin 4\<rparr>]))
     NaNIdx (Fin 0) 9) \<noteq> Inr FirstReturn \<and>
   filter_defined (write_anchor [None, None, None] (Idx 0) 9) \<noteq> [] \<and>
   computeVelocity_traced [None, None, None] (Idx 0) (Fin 10) 9 =
     Inr (SecondReturn, zero_velocity,
          [None, None, None, Some \<lparr>x = NaN, y = NaN, time = Fin 9\<rparr>])"
proof -
  let ?s = "\<lparr>s_buffer = [], s_len = 0, s_i = Idx 0, s_msec = Fin 0\<rparr>"
  let ?ds = "[\<lparr>x = Fin 1, y = Fin 2, time = Fin 3\<rparr>, \<lparr>x = Fin 2, y = Fin 2, time = Fin 4\<rparr>]"
  have st: "dragExitVelocity (Fin 0) = Inr ?s"
    by (simp add: dragExitVelocity_def new_Array_def)
  have cur: "s_i (gesture ?s ?ds) = NaNIdx"
    by (simp add: gesture_def mousemove_def set_at_def is_array_index_def)
  have r: "replicate 3 None = [None, None, None :: sample option]"
    by (simp add: numeral_3_eq_3)
  have ai: "anchor_index [None, None, None :: sample option] 0 = 3"
    by (simp add: anchor_index_def)
  have ix: "is_array_index 3" by (simp add: is_array_index_def)
  have sa: "set_at [None, None, None] 3 \<lparr>x = NaN, y = NaN, time = Fin 9\<rparr> =
      [None, None, None, Some \<lparr>x = NaN, y = NaN, time = Fin 9\<rparr>]"
    by (simp add: set_at_def is_array_index_def)
  from compacted_nonempty_below_index_limit
    [of "[None, None, None]" "Idx 0" "Fin 10" 9 0 "Fin 0" ?s ?ds 3 0]
  show ?thesis
    by (simp only: st cur r ai ix sa s_msec_gesture s_len_gesture) simp
qed

text \<open>
  C10 as stated fails. A window of 14316557650 ms gives a capacity of \<open>2^32 - 1\<close>, the
  largest length an array can have. With no sample recorded the cursor is 0, the anchor
  goes to index \<open>2^32 - 1\<close>, which is not an array index: no element is written, the
  compacted array is empty and the result comes from the first \<open>return\<close>.
\<close>

theorem largest_array_compacted_empty:
  "dragExitVelocity (Fin 14316557650) =
     Inr \<lparr>s_buffer = replicate 4294967295 None, s_len = 4294967295, s_i = Idx 0,
          s_msec = Fin 14316557650\<rparr> \<and>
   anchor_index (replicate 4294967295 None :: slot list) 0 = 4294967295 \<and>
   \<not> is_array_index 4294967295 \<and>
   filter_defined (write_anchor (replicate 4294967295 None) (Idx 0) 9) = [] \<and>
   computeVelocity_traced (replicate 4294967295 None) (Idx 0) (Fin 14316557650) 9 =
     Inr (FirstReturn, zero_velocity, replicate 4294967295 None)"
proof (intro conjI)
  have n: "nat 4294967295 = 4294967295" by simp
  have "new_Array (Fin (of_int 4294967295)) = Inr (replicate (nat 4294967295) None)"
    by (simp only: new_Array_int) simp
  then have na: "new_Array (Fin 4294967295) = Inr (replicate 4294967295 None)"
    by (simp only: n of_int_numeral)
  have len: "js_mul (Math_round (js_div (Fin 14316557650) (Fin 10))) (Fin 3) = Fin 4294967295"
    by simp
  show "dragExitVelocity (Fin 14316557650) =
     Inr \<lparr>s_buffer = replicate 4294967295 None, s_len = 4294967295, s_i = Idx 0,
          s_msec = Fin 14316557650\<rparr>"
    unfolding dragExitVelocity_def Let_def len na by simp
  show ai: "anchor_index (replicate 4294967295 None :: slot list) 0 = 4294967295"
    by (simp add: anchor_index_def)
  show ix: "\<not> is_array_index 4294967295"
    by (simp add: is_array_index_def)
  from ix have w: "write_anchor (replicate 4294967295 None) (Idx 0) 9 = replicate 4294967295 None"
      and w': "write_anchor (replicate 4294967295 None) (Idx 0) 9 = replicate 4294967295 None"
    by (simp_all only: write_anchor_no_index ai not_False_eq_True)
  have f: "filter_defined (replicate 4294967295 None) = []"
    by (simp only: filter_defined_def filter_from_replicate_None)
  show "filter_defined (write_anchor (replicate 4294967295 None) (Idx 0) 9) = []"
    by (simp only: w f)
  show "computeVelocity_traced (replicate 4294967295 None) (Idx 0) (Fin 14316557650) 9 =
     Inr (FirstReturn, zero_velocity, replicate 4294967295 None)"
    unfolding computeVelocity_traced_def Let_def w f by simp
qed

section \<open>Interpolation of the trailing edge\<close>





section \<open>Session start\<close>

text \<open>
  C6, as the code has it. \<open>$.fn.dragExitVelocity\<close> does not check its window length. It
  fails, before any handler is registered, exactly when \<open>Math.round(msec / 10) * 3\<close> is
  no valid array length: \<open>msec\<close> not numeric or infinite, \<open>msec < -5\<close>, or a length of
  \<open>2^32\<close> or more. Every other window, zero and the negative ones down to -5 included,
  starts a session.
\<close>

theorem session_start_unvalidated:
  "dragExitVelocity msec =
     (case msec of
        Fin r \<Rightarrow>
          if r < - 5 \<or> 2 ^ 32 \<le> 3 * \<lfloor>r / 10 + 1 / 2\<rfloor> then Inl RangeError
          else Inr \<lparr>s_buffer = replicate (nat (3 * \<lfloor>r / 10 + 1 / 2\<rfloor>)) None,
                    s_len = nat (3 * \<lfloor>r / 10 + 1 / 2\<rfloor>), s_i = Idx 0, s_msec = msec\<rparr>
      | _ \<Rightarrow> Inl RangeError)"
proof (cases msec)
  case (Fin r)
  let ?n = "\<lfloor>r / 10 + 1 / 2\<rfloor>"
  have len: "js_mul (Math_round (js_div msec (Fin 10))) (Fin 3) = Fin (of_int (3 * ?n))"
    using Fin by simp
  have neg: "\<not> 0 \<le> 3 * ?n \<longleftrightarrow> r < - 5"
    using round_neg_iff [of r] by linarith
  show ?thesis
    unfolding dragExitVelocity_def len Let_def new_Array_int
    using Fin neg by auto
qed (simp_all add: dragExitVelocity_def new_Array_def)

text \<open>
  C6 as stated fails: windows of 0 ms and of -4 ms start a session (of capacity 0), a
  mousemove is then recorded and the mouseup delivers an estimate.
\<close>

theorem zero_window_accepted:
  "dragExitVelocity (Fin 0) = Inr \<lparr>s_buffer = [], s_len = 0, s_i = Idx 0, s_msec = Fin 0\<rparr> \<and>
   dragExitVelocity (Fin (- 4)) = Inr \<lparr>s_buffer = [], s_len = 0, s_i = Idx 0, s_msec = Fin (- 4)\<rparr> \<and>
   s_buffer (mousemove \<lparr>s_buffer = [], s_len = 0, s_i = Idx 0, s_msec = Fin 0\<rparr>
               \<lparr>x = Fin 1, y = Fin 2, time = Fin 3\<rparr>) = [Some \<lparr>x = Fin 1, y = Fin 2, time = Fin 3\<rparr>] \<and>
   mouseup (mousemove \<lparr>s_buffer = [], s_len = 0, s_i = Idx 0, s_msec = Fin 0\<rparr>
               \<lparr>x = Fin 1, y = Fin 2, time = Fin 3\<rparr>) 7
     = Inr (zero_velocity, [Some \<lparr>x = Fin 1, y = Fin 2, time = Fin 3\<rparr>])"
proof (intro conjI)
  show "dragExitVelocity (Fin 0) = Inr \<lparr>s_buffer = [], s_len = 0, s_i = Idx 0, s_msec = Fin 0\<rparr>"
    by (simp add: dragExitVelocity_def new_Array_def)
  show "dragExitVelocity (Fin (- 4)) =
    Inr \<lparr>s_buffer = [], s_len = 0, s_i = Idx 0, s_msec = Fin (- 4)\<rparr>"
    by (simp add: dragExitVelocity_def new_Array_def)
  have m: "mousemove \<lparr>s_buffer = [], s_len = 0, s_i = Idx 0, s_msec = Fin 0\<rparr>
               \<lparr>x = Fin 1, y = Fin 2, time = Fin 3\<rparr>
     = \<lparr>s_buffer = [Some \<lparr>x = Fin 1, y = Fin 2, time = Fin 3\<rparr>], s_len = 0, s_i = NaNIdx,
         s_msec = Fin 0\<rparr>"
    by (simp add: mousemove_def set_at_def is_array_index_def)
  show "s_buffer (mousemove \<lparr>s_buffer = [], s_len = 0, s_i = Idx 0, s_msec = Fin 0\<rparr>
               \<lparr>x = Fin 1, y = Fin 2, time = Fin 3\<rparr>) = [Some \<lparr>x = Fin 1, y = Fin 2, time = Fin 3\<rparr>]"
    by (simp add: m)
  show "mouseup (mousemove \<lparr>s_buffer = [], s_len = 0, s_i = Idx 0, s_msec = Fin 0\<rparr>
               \<lparr>x = Fin 1, y = Fin 2, time = Fin 3\<rparr>) 7
     = Inr (zero_velocity, [Some \<lparr>x = Fin 1, y = Fin 2, time = Fin 3\<rparr>])"
    unfolding m by (simp add: mouseup_def eval_defs)
qed

section \<open>Capacity of the buffer\<close>

text \<open>
  C7, as the code has it. In a session of capacity \<open>L > 0\<close> the cursor is an index below
  \<open>L\<close> after every mousemove and the array keeps the length \<open>L\<close> while recording. At
  the release the anchor goes to the cursor when the cursor is not 0, and to index \<open>L\<close>
  when it is 0: the array then has \<open>L + 1\<close> elements, unless \<open>L\<close> is \<open>2^32 - 1\<close>, the
  largest length of an array, where \<open>L\<close> is not an array index and the array keeps its
  \<open>L\<close> elements.
\<close>

theorem capacity_after_release:
  assumes "dragExitVelocity msec = Inr s0" and "0 < s_len s0"
  shows "\<exists>k. s_i (gesture s0 ds) = Idx k \<and> k < s_len s0 \<and>
           length (s_buffer (gesture s0 ds)) = s_len s0 \<and>
           anchor_index (s_buffer (gesture s0 ds)) k = (if k = 0 then s_len s0 else k) \<and>
           (\<exists>v st. mouseup (gesture s0 ds) now = Inr (v, st) \<and>
              length st = (if k = 0 \<and> is_array_index (s_len s0) then s_len s0 + 1
                           else s_len s0))"
proof -
  let ?s = "gesture s0 ds"
  from recording_start [OF assms] session_start(2) [OF assms(1)]
  have r: "recording (s_len s0) ?s"
    by (rule recording_gesture)
  then obtain k where k: "s_i ?s = Idx k" "k < s_len s0" and l: "length (s_buffer ?s) = s_len s0"
    by (auto simp: recording_def split: cursor.splits)
  obtain v st where m: "mouseup ?s now = Inr (v, st)"
    using computeVelocity_total [of "s_buffer ?s" "s_i ?s" "s_msec ?s" now]
    by (auto simp: mouseup_def)
  then have "length st = length (write_anchor (s_buffer ?s) (Idx k) now)"
    using computeVelocity_state_length [of "s_buffer ?s" "Idx k" "s_msec ?s" now v st] k
    by (simp add: mouseup_def)
  also have "\<dots> = (if k = 0 \<and> is_array_index (s_len s0) then s_len s0 + 1 else s_len s0)"
    using k l by (simp add: write_anchor_def anchor_index_def length_set_at Let_def)
  finally have "length st = (if k = 0 \<and> is_array_index (s_len s0) then s_len s0 + 1
      else s_len s0)" .
  with k l m show ?thesis
    by (auto simp: anchor_index_def)
qed

text \<open>An instance: capacity 3, one mousemove, the cursor at 1.\<close>

theorem capacity_after_release_witness:
  "\<exists>v st. mouseup (gesture \<lparr>s_buffer = [None, None, None], s_len = 3, s_i = Idx 0, s_msec = Fin 10\<rparr>
       [\<lparr>x = Fin 1, y = Fin 2, time = Fin 3\<rparr>]) 9 = Inr (v, st) \<and> length st = 3"
proof -
  let ?s = "\<lparr>s_buffer = [None, None, None], s_len = 3, s_i = Idx 0, s_msec = Fin 10\<rparr>"
  let ?ds = "[\<lparr>x = Fin 1, y = Fin 2, time = Fin 3\<rparr>]"
  have st: "dragExitVelocity (Fin 10) = Inr ?s"
    by (simp add: dragExitVelocity_def new_Array_def numeral_3_eq_3)
  have cur: "s_i (gesture ?s ?ds) = Idx 1"
    by (simp add: gesture_def mousemove_def)
  from capacity_after_release [OF st, of ?ds 9] cur show ?thesis
    by auto
qed

text \<open>
  C7 as stated fails: with a window of 10 ms the capacity is 3; after three mousemoves the
  cursor is back at 0, the anchor is written at index 3 and the array has 4 elements.
\<close>

theorem anchor_beyond_capacity:
  "dragExitVelocity (Fin 10) = Inr \<lparr>s_buffer = [None, None, None], s_len = 3, s_i = Idx 0, s_msec = Fin 10\<rparr> \<and>
   gesture \<lparr>s_buffer = [None, None, None], s_len = 3, s_i = Idx 0, s_msec = Fin 10\<rparr>
     [\<lparr>x = Fin 0, y = Fin 0, time = Fin 0\<rparr>, \<lparr>x = Fin 1, y = Fin 0, time = Fin 10\<rparr>,
      \<lparr>x = Fin 2, y = Fin 0, time = Fin 20\<rparr>]
   = \<lparr>s_buffer = [Some \<lparr>x = Fin 0, y = Fin 0, time = Fin 0\<rparr>, Some \<lparr>x = Fin 1, y = Fin 0, time = Fin 10\<rparr>,
      Some \<lparr>x = Fin 2, y = Fin 0, time = Fin 20\<rparr>], s_len = 3, s_i = Idx 0, s_msec = Fin 10\<rparr> \<and>
   mouseup \<lparr>s_buffer = [Some \<lparr>x = Fin 0, y = Fin 0, time = Fin 0\<rparr>, Some \<lparr>x = Fin 1, y = Fin 0, time = Fin 10\<rparr>,
      Some \<lparr>x = Fin 2, y = Fin 0, time = Fin 20\<rparr>], s_len = 3, s_i = Idx 0, s_msec = Fin 10\<rparr> 20
   = Inr (\<lparr>Vx = Fin 100, Vy = Fin 0\<rparr>,
      [Some \<lparr>x = Fin 0, y = Fin 0, time = Fin 0\<rparr>, Some \<lparr>x = Fin 1, y = Fin 0, time = Fin 10\<rparr>,
      Some \<lparr>x = Fin 2, y = Fin 0, time = Fin 20\<rparr>, Some \<lparr>x = Fin 2, y = Fin 0, time = Fin 20\<rparr>])"
proof (intro conjI)
  show "dragExitVelocity (Fin 10) =
    Inr \<lparr>s_buffer = [None, None, None], s_len = 3, s_i = Idx 0, s_msec = Fin 10\<rparr>"
    by (simp add: dragExitVelocity_def new_Array_def numeral_3_eq_3)
  show "gesture \<lparr>s_buffer = [None, None, None], s_len = 3, s_i = Idx 0, s_msec = Fin 10\<rparr>
     [\<lparr>x = Fin 0, y = Fin 0, time = Fin 0\<rparr>, \<lparr>x = Fin 1, y = Fin 0, time = Fin 10\<rparr>,
      \<lparr>x = Fin 2, y = Fin 0, time = Fin 20\<rparr>]
   = \<lparr>s_buffer = [Some \<lparr>x = Fin 0, y = Fin 0, time = Fin 0\<rparr>, Some \<lparr>x = Fin 1, y = Fin 0, time = Fin 10\<rparr>,
      Some \<lparr>x = Fin 2, y = Fin 0, time = Fin 20\<rparr>], s_len = 3, s_i = Idx 0, s_msec = Fin 10\<rparr>"
    by (simp add: gesture_def mousemove_def set_at_def is_array_index_def)
  show "mouseup \<lparr>s_buffer = [Some \<lparr>x = Fin 0, y = Fin 0, time = Fin 0\<rparr>, Some \<lparr>x = Fin 1, y = Fin 0, time = Fin 10\<rparr>,
      Some \<lparr>x = Fin 2, y = Fin 0, time = Fin 20\<rparr>], s_len = 3, s_i = Idx 0, s_msec = Fin 10\<rparr> 20
   = Inr (\<lparr>Vx = Fin 100, Vy = Fin 0\<rparr>,
      [Some \<lparr>x = Fin 0, y = Fin 0, time = Fin 0\<rparr>, Some \<lparr>x = Fin 1, y = Fin 0, time = Fin 10\<rparr>,
      Some \<lparr>x = Fin 2, y = Fin 0, time = Fin 20\<rparr>, Some \<lparr>x = Fin 2, y = Fin 0, time = Fin 20\<rparr>])"
    by (simp add: mouseup_def eval_defs)
qed

section \<open>Objects written by the estimator\<close>

text \<open>
  C9, as the code has it. \<open>computeVelocity\<close> leaves every slot of the array as it was,
  except the slot that receives the anchor and the slot of the boundary object, whose
  fields \<open>interpolateTrailingEdge\<close> overwrites in place.
\<close>

theorem estimator_frame:
  assumes cv: "computeVelocity buffer c msec now = Inr (v, st)"
    and b: "boundary_slot buffer c msec now \<noteq> Some m"
    and a: "anchor_slot buffer c \<noteq> Some m"
  shows "get_at st m = get_at buffer m"
proof -
  let ?a = "write_anchor buffer c now"
  let ?s = "sorted_samples buffer c now"
  let ?j = "boundary_index ?s msec"
  have "get_at st m = get_at ?a m"
  proof (cases "?s = []")
    case True
    with cv show ?thesis by (simp add: computeVelocity_alt)
  next
    case False
    then have j: "?j < length ?s" by (rule boundary_index_less)
    with cv False obtain sbuf' where i: "interpolateTrailingEdge ?s ?j msec (Fin 50) = Inr sbuf'"
      and st: "st = write_back sbuf' ?a"
      by (auto simp: computeVelocity_alt split: sum.splits option.splits)
    have "set ?s = set (filter_defined ?a)"
      by (simp add: sorted_samples_def)
    moreover from b j have "fst (?s ! ?j) \<noteq> m"
      by (simp add: boundary_slot_def elem_at_def Let_def)
    ultimately show ?thesis
      using write_back_frame [OF i] st by simp
  qed
  with a show ?thesis by (simp add: get_at_write_anchor)
qed

text \<open>An instance: the boundary object is in slot 0 and the anchor in slot 2; slot 1 is
  unchanged.\<close>

theorem estimator_frame_witness:
  "computeVelocity [Some \<lparr>x = Fin 0, y = Fin 0, time = Fin 10\<rparr>,
                    Some \<lparr>x = Fin 10, y = Fin 0, time = Fin 100\<rparr>, None,
                    Some \<lparr>x = Fin (- 100), y = Fin 0, time = Fin (- 10)\<rparr>] (Idx 2) (Fin 100) 100
     = Inr (\<lparr>Vx = Fin 600, Vy = Fin 0\<rparr>,
            [Some \<lparr>x = Fin (- 50), y = Fin 0, time = Fin 0\<rparr>,
             Some \<lparr>x = Fin 10, y = Fin 0, time = Fin 100\<rparr>,
             Some \<lparr>x = Fin 10, y = Fin 0, time = Fin 100\<rparr>,
             Some \<lparr>x = Fin (- 100), y = Fin 0, time = Fin (- 10)\<rparr>]) \<and>
   get_at [Some \<lparr>x = Fin (- 50), y = Fin 0, time = Fin 0\<rparr>,
           Some \<lparr>x = Fin 10, y = Fin 0, time = Fin 100\<rparr>,
           Some \<lparr>x = Fin 10, y = Fin 0, time = Fin 100\<rparr>,
           Some \<lparr>x = Fin (- 100), y = Fin 0, time = Fin (- 10)\<rparr>] 1
     = get_at [Some \<lparr>x = Fin 0, y = Fin 0, time = Fin 10\<rparr>,
               Some \<lparr>x = Fin 10, y = Fin 0, time = Fin 100\<rparr>, None,
               Some \<lparr>x = Fin (- 100), y = Fin 0, time = Fin (- 10)\<rparr>] 1"
proof -
  let ?b = "[Some \<lparr>x = Fin 0, y = Fin 0, time = Fin 10\<rparr>,
             Some \<lparr>x = Fin 10, y = Fin 0, time = Fin 100\<rparr>, None,
             Some \<lparr>x = Fin (- 100), y = Fin 0, time = Fin (- 10)\<rparr>]"
  let ?st = "[Some \<lparr>x = Fin (- 50), y = Fin 0, time = Fin 0\<rparr>,
              Some \<lparr>x = Fin 10, y = Fin 0, time = Fin 100\<rparr>,
              Some \<lparr>x = Fin 10, y = Fin 0, time = Fin 100\<rparr>,
              Some \<lparr>x = Fin (- 100), y = Fin 0, time = Fin (- 10)\<rparr>]"
  have cv: "computeVelocity ?b (Idx 2) (Fin 100) 100 = Inr (\<lparr>Vx = Fin 600, Vy = Fin 0\<rparr>, ?st)"
    by (simp add: eval_defs)
  have b: "boundary_slot ?b (Idx 2) (Fin 100) 100 \<noteq> Some 1"
    by (simp add: boundary_slot_def eval_defs)
  have a: "anchor_slot ?b (Idx 2) \<noteq> Some 1"
    by (simp add: anchor_slot_def anchor_index_def)
  from cv estimator_frame [OF cv b a] show ?thesis by simp
qed

text \<open>
  C9 as stated fails: the recorded sample of slot 0, \<open>(0, 0)\<close> at 10 ms, is the boundary
  object; after the call the same slot holds \<open>(-50, 0)\<close> at 0 ms.
\<close>

theorem recorded_sample_overwritten:
  "get_at [Some \<lparr>x = Fin 0, y = Fin 0, time = Fin 10\<rparr>,
           Some \<lparr>x = Fin 10, y = Fin 0, time = Fin 100\<rparr>, None,
           Some \<lparr>x = Fin (- 100), y = Fin 0, time = Fin (- 10)\<rparr>] 0
     = Some \<lparr>x = Fin 0, y = Fin 0, time = Fin 10\<rparr> \<and>
   computeVelocity [Some \<lparr>x = Fin 0, y = Fin 0, time = Fin 10\<rparr>,
                    Some \<lparr>x = Fin 10, y = Fin 0, time = Fin 100\<rparr>, None,
                    Some \<lparr>x = Fin (- 100), y = Fin 0, time = Fin (- 10)\<rparr>] (Idx 2) (Fin 100) 100
     = Inr (\<lparr>Vx = Fin 600, Vy = Fin 0\<rparr>,
            [Some \<lparr>x = Fin (- 50), y = Fin 0, time = Fin 0\<rparr>,
             Some \<lparr>x = Fin 10, y = Fin 0, time = Fin 100\<rparr>,
             Some \<lparr>x = Fin 10, y = Fin 0, time = Fin 100\<rparr>,
             Some \<lparr>x = Fin (- 100), y = Fin 0, time = Fin (- 10)\<rparr>])"
  by (simp add: eval_defs)

section \<open>The most recent sample\<close>

text \<open>
  C8, as the code has it. Let the cursor be a number and the index that receives the
  anchor an array index (as in every session of capacity 1 to \<open>2^32 - 2\<close>). When the
  release time is strictly later than the time of every sample that the buffer holds
  outside the anchor's slot, the first element of the sorted array is the anchor: the
  object in the slot that the anchor step wrote, with the position of the slot before it
  and the release time.
\<close>

theorem anchor_first_when_newest:
  assumes "is_array_index (anchor_index buffer i)"
    and "\<And>k s. get_at buffer k = Some s \<Longrightarrow> k \<noteq> anchor_index buffer i
             \<Longrightarrow> js_lt (time s) (Fin now)"
  shows "hd (sorted_samples buffer (Idx i) now) =
           (anchor_index buffer i, anchor_sample buffer (anchor_index buffer i) now)"
proof -
  let ?i = "anchor_index buffer i"
  let ?A = "anchor_sample buffer ?i now"
  let ?c = "filter_defined (write_anchor buffer (Idx i) now)"
  have w: "write_anchor buffer (Idx i) now = set_at buffer ?i ?A"
    by (simp add: write_anchor_def Let_def)
  have "hd (array_sort compare_time ?c) = (?i, ?A)"
  proof (rule hd_array_sort_newest)
    show "(?i, ?A) \<in> set ?c"
      using assms(1) by (simp add: w filter_defined_mem)
  next
    fix e
    assume e: "e \<in> set ?c" and ne: "e \<noteq> (?i, ?A)"
    obtain k s where ks: "e = (k, s)" by (cases e)
    with e have g: "get_at (set_at buffer ?i ?A) k = Some s"
      by (simp add: w filter_defined_mem)
    with ne ks assms(1) have k: "k \<noteq> ?i" by auto
    with g have "get_at buffer k = Some s" by (simp add: get_at_set_at_other)
    from this k have lt: "js_lt (time s) (Fin now)" by (rule assms(2))
    then have "\<not> js_lt (Fin now) (time s)" by (rule js_lt_asym)
    with lt k ks show "compare_time (?i, ?A) e < 0 \<and> \<not> compare_time e (?i, ?A) < 0"
      by (simp add: compare_time_def js_gt_def)
  qed
  then show ?thesis by (simp add: sorted_samples_def)
qed

text \<open>An instance: samples at 0 and 100 ms, release at 120 ms.\<close>

theorem anchor_first_when_newest_witness:
  "hd (sorted_samples [Some \<lparr>x = Fin 0, y = Fin 0, time = Fin 0\<rparr>,
                       Some \<lparr>x = Fin 10, y = Fin 0, time = Fin 100\<rparr>, None] (Idx 2) 120)
     = (2, \<lparr>x = Fin 10, y = Fin 0, time = Fin 120\<rparr>)"
proof -
  let ?b = "[Some \<lparr>x = Fin 0, y = Fin 0, time = Fin 0\<rparr>,
             Some \<lparr>x = Fin 10, y = Fin 0, time = Fin 100\<rparr>, None]"
  have h: "js_lt (time s) (Fin 120)" if "get_at ?b k = Some s" "k \<noteq> anchor_index ?b 2" for k s
  proof -
    from that(1) have "k = 0 \<or> k = 1 \<or> k = 2"
      by (auto simp: get_at_def split: if_splits)
    with that show ?thesis
      by (auto simp: get_at_def)
  qed
  have a: "anchor_index ?b 2 = 2" by (simp add: anchor_index_def)
  then have ix: "is_array_index (anchor_index ?b 2)" by (simp add: is_array_index_def)
  have "anchor_sample ?b 2 120 = \<lparr>x = Fin 10, y = Fin 0, time = Fin 120\<rparr>"
    by (simp add: anchor_sample_def extend_copy_def get_at_def)
  with a show ?thesis
    using anchor_first_when_newest [of ?b 2 120, OF ix h] by simp
qed

text \<open>
  C8 as stated fails. With two samples recorded at 5 ms and the release at 5 ms, all three
  times are equal, the sort leaves the array as it is and the first element is the sample
  of slot 0, at \<open>x = 0\<close>, not the anchor of slot 2, at \<open>x = 1\<close>. With a sample stamped
  10 ms and a clock that reads 5 ms at the release, the first element is that sample. In a
  session with a window of 4 ms the capacity is 0; one mousemove writes element 0 and
  leaves the cursor at \<open>NaN\<close>, the anchor step then writes no element and the only
  element of the sorted array is the recorded sample.
\<close>

theorem anchor_not_first:
  "hd (sorted_samples [Some \<lparr>x = Fin 0, y = Fin 0, time = Fin 5\<rparr>,
                       Some \<lparr>x = Fin 1, y = Fin 0, time = Fin 5\<rparr>, None] (Idx 2) 5)
     = (0, \<lparr>x = Fin 0, y = Fin 0, time = Fin 5\<rparr>) \<and>
   write_anchor [Some \<lparr>x = Fin 0, y = Fin 0, time = Fin 5\<rparr>,
                 Some \<lparr>x = Fin 1, y = Fin 0, time = Fin 5\<rparr>, None] (Idx 2) 5
     = [Some \<lparr>x = Fin 0, y = Fin 0, time = Fin 5\<rparr>,
        Some \<lparr>x = Fin 1, y = Fin 0, time = Fin 5\<rparr>,
        Some \<lparr>x = Fin 1, y = Fin 0, time = Fin 5\<rparr>] \<and>
   hd (sorted_samples [Some \<lparr>x = Fin 0, y = Fin 0, time = Fin 10\<rparr>, None] (Idx 1) 5)
     = (0, \<lparr>x = Fin 0, y = Fin 0, time = Fin 10\<rparr>) \<and>
   write_anchor [Some \<lparr>x = Fin 0, y = Fin 0, time = Fin 10\<rparr>, None] (Idx 1) 5
     = [Some \<lparr>x = Fin 0, y = Fin 0, time = Fin 10\<rparr>, Some \<lparr>x = Fin 0, y = Fin 0, time = Fin 5\<rparr>] \<and>
   dragExitVelocity (Fin 4) = Inr \<lparr>s_buffer = [], s_len = 0, s_i = Idx 0, s_msec = Fin 4\<rparr> \<and>
   mousemove \<lparr>s_buffer = [], s_len = 0, s_i = Idx 0, s_msec = Fin 4\<rparr>
       \<lparr>x = Fin 7, y = Fin 8, time = Fin 1\<rparr>
     = \<lparr>s_buffer = [Some \<lparr>x = Fin 7, y = Fin 8, time = Fin 1\<rparr>], s_len = 0, s_i = NaNIdx,
        s_msec = Fin 4\<rparr> \<and>
   write_anchor [Some \<lparr>x = Fin 7, y = Fin 8, time = Fin 1\<rparr>] NaNIdx 5
     = [Some \<lparr>x = Fin 7, y = Fin 8, time = Fin 1\<rparr>] \<and>
   sorted_samples [Some \<lparr>x = Fin 7, y = Fin 8, time = Fin 1\<rparr>] NaNIdx 5
     = [(0, \<lparr>x = Fin 7, y = Fin 8, time = Fin 1\<rparr>)]"
proof (intro conjI)
  show "hd (sorted_samples [Some \<lparr>x = Fin 0, y = Fin 0, time = Fin 5\<rparr>,
                       Some \<lparr>x = Fin 1, y = Fin 0, time = Fin 5\<rparr>, None] (Idx 2) 5)
     = (0, \<lparr>x = Fin 0, y = Fin 0, time = Fin 5\<rparr>)"
    by (simp add: sorted_samples_def write_anchor_def anchor_index_def anchor_sample_def
      extend_copy_def get_at_def set_at_def is_array_index_def filter_defined_def
      compare_time_def js_gt_def)
  show "write_anchor [Some \<lparr>x = Fin 0, y = Fin 0, time = Fin 5\<rparr>,
                 Some \<lparr>x = Fin 1, y = Fin 0, time = Fin 5\<rparr>, None] (Idx 2) 5
     = [Some \<lparr>x = Fin 0, y = Fin 0, time = Fin 5\<rparr>,
        Some \<lparr>x = Fin 1, y = Fin 0, time = Fin 5\<rparr>,
        Some \<lparr>x = Fin 1, y = Fin 0, time = Fin 5\<rparr>]"
    by (simp add: write_anchor_def anchor_index_def anchor_sample_def
      extend_copy_def get_at_def set_at_def is_array_index_def)
  show "hd (sorted_samples [Some \<lparr>x = Fin 0, y = Fin 0, time = Fin 10\<rparr>, None] (Idx 1) 5)
     = (0, \<lparr>x = Fin 0, y = Fin 0, time = Fin 10\<rparr>)"
    by (simp add: sorted_samples_def write_anchor_def anchor_index_def anchor_sample_def
      extend_copy_def get_at_def set_at_def is_array_index_def filter_defined_def
      compare_time_def js_gt_def)
  show "write_anchor [Some \<lparr>x = Fin 0, y = Fin 0, time = Fin 10\<rparr>, None] (Idx 1) 5
     = [Some \<lparr>x = Fin 0, y = Fin 0, time = Fin 10\<rparr>, Some \<lparr>x = Fin 0, y = Fin 0, time = Fin 5\<rparr>]"
    by (simp add: write_anchor_def anchor_index_def anchor_sample_def
      extend_copy_def get_at_def set_at_def is_array_index_def)
  show "dragExitVelocity (Fin 4) = Inr \<lparr>s_buffer = [], s_len = 0, s_i = Idx 0, s_msec = Fin 4\<rparr>"
    by (simp add: dragExitVelocity_def new_Array_def)
  show "mousemove \<lparr>s_buffer = [], s_len = 0, s_i = Idx 0, s_msec = Fin 4\<rparr>
       \<lparr>x = Fin 7, y = Fin 8, time = Fin 1\<rparr>
     = \<lparr>s_buffer = [Some \<lparr>x = Fin 7, y = Fin 8, time = Fin 1\<rparr>], s_len = 0, s_i = NaNIdx,
        s_msec = Fin 4\<rparr>"
    by (simp add: mousemove_def set_at_def is_array_index_def)
  show "write_anchor [Some \<lparr>x = Fin 7, y = Fin 8, time = Fin 1\<rparr>] NaNIdx 5
     = [Some \<lparr>x = Fin 7, y = Fin 8, time = Fin 1\<rparr>]"
    by (simp add: write_anchor_def)
  show "sorted_samples [Some \<lparr>x = Fin 7, y = Fin 8, time = Fin 1\<rparr>] NaNIdx 5
     = [(0, \<lparr>x = Fin 7, y = Fin 8, time = Fin 1\<rparr>)]"
    by (simp add: sorted_samples_def write_anchor_def filter_defined_def)
qed

section \<open>Dependence on the clock\<close>

text \<open>
  C3, as the code has it. \<open>computeVelocity\<close> reads the clock and writes into the
  caller's array: the anchor into its slot, the interpolated fields into the boundary
  object. A second call on the same array finds it as the first call left it. When the
  cursor is not 0, the clock reads the same and the first call did not change the boundary
  object (there is no trailing sample within 50 ms of it), the first call leaves the array
  as the anchor step made it, and the second call returns the same velocity and leaves
  the same array.
\<close>

theorem second_call_same_result:
  assumes "computeVelocity buffer (Idx i) msec now = Inr (v, st)"
    and "i \<noteq> 0"
    and "interpolateTrailingEdge (sorted_samples buffer (Idx i) now)
        (boundary_index (sorted_samples buffer (Idx i) now) msec) msec (Fin 50) =
      Inr (sorted_samples buffer (Idx i) now)"
  shows "st = write_anchor buffer (Idx i) now \<and>
         computeVelocity st (Idx i) msec now = Inr (v, st)"
  using computeVelocity_again [OF assms] by simp

text \<open>
  An instance: samples at 0 and 100 ms, release at 100 ms with a window of 100 ms. The
  boundary object is the sample at 0 ms, which has no trailing sample.
\<close>

theorem second_call_same_result_witness:
  "computeVelocity [Some \<lparr>x = Fin 0, y = Fin 0, time = Fin 0\<rparr>,
                    Some \<lparr>x = Fin 10, y = Fin 0, time = Fin 100\<rparr>, None] (Idx 2) (Fin 100) 100
     = Inr (\<lparr>Vx = Fin 100, Vy = Fin 0\<rparr>,
            [Some \<lparr>x = Fin 0, y = Fin 0, time = Fin 0\<rparr>,
             Some \<lparr>x = Fin 10, y = Fin 0, time = Fin 100\<rparr>,
             Some \<lparr>x = Fin 10, y = Fin 0, time = Fin 100\<rparr>]) \<and>
   computeVelocity [Some \<lparr>x = Fin 0, y = Fin 0, time = Fin 0\<rparr>,
                    Some \<lparr>x = Fin 10, y = Fin 0, time = Fin 100\<rparr>,
                    Some \<lparr>x = Fin 10, y = Fin 0, time = Fin 100\<rparr>] (Idx 2) (Fin 100) 100
     = Inr (\<lparr>Vx = Fin 100, Vy = Fin 0\<rparr>,
            [Some \<lparr>x = Fin 0, y = Fin 0, time = Fin 0\<rparr>,
             Some \<lparr>x = Fin 10, y = Fin 0, time = Fin 100\<rparr>,
             Some \<lparr>x = Fin 10, y = Fin 0, time = Fin 100\<rparr>])"
proof -
  let ?b = "[Some \<lparr>x = Fin 0, y = Fin 0, time = Fin 0\<rparr>,
             Some \<lparr>x = Fin 10, y = Fin 0, time = Fin 100\<rparr>, None]"
  let ?st = "[Some \<lparr>x = Fin 0, y = Fin 0, time = Fin 0\<rparr>,
              Some \<lparr>x = Fin 10, y = Fin 0, time = Fin 100\<rparr>,
              Some \<lparr>x = Fin 10, y = Fin 0, time = Fin 100\<rparr>]"
  have cv: "computeVelocity ?b (Idx 2) (Fin 100) 100 = Inr (\<lparr>Vx = Fin 100, Vy = Fin 0\<rparr>, ?st)"
    by (simp add: eval_defs)
  have S: "sorted_samples ?b (Idx 2) 100 =
      [(1, \<lparr>x = Fin 10, y = Fin 0, time = Fin 100\<rparr>),
       (2, \<lparr>x = Fin 10, y = Fin 0, time = Fin 100\<rparr>),
       (0, \<lparr>x = Fin 0, y = Fin 0, time = Fin 0\<rparr>)]"
    by (simp add: sorted_samples_def write_anchor_def anchor_index_def anchor_sample_def
      extend_copy_def get_at_def set_at_def is_array_index_def filter_defined_def
      compare_time_def js_gt_def)
  have k: "interpolateTrailingEdge (sorted_samples ?b (Idx 2) 100)
        (boundary_index (sorted_samples ?b (Idx 2) 100) (Fin 100)) (Fin 100) (Fin 50) =
      Inr (sorted_samples ?b (Idx 2) 100)"
    unfolding S by (simp add: boundary_index_def interpolateTrailingEdge_def elem_at_def)
  have n: "(2 :: nat) \<noteq> 0" by simp
  from second_call_same_result [OF cv n k]
  have "computeVelocity ?st (Idx 2) (Fin 100) 100 = Inr (\<lparr>Vx = Fin 100, Vy = Fin 0\<rparr>, ?st)"
    by (rule conjunct2)
  with cv show ?thesis by (rule conjI)
qed

text \<open>
  C3 as stated fails. The same buffer, cursor and window give 100 px/s when the clock reads
  100 ms at the release and 0 px/s when it reads 150 ms. And with the same clock reading a
  second call on the same array differs from the first when the first has interpolated:
  with samples at 48 and 80 ms, a release at 128 ms and a window of 64 ms, the first call
  returns 125 px/s and moves the sample of slot 1 to \<open>x = 8\<close> at 64 ms; the second call,
  on the array as the first left it, returns 0.
\<close>

theorem estimate_depends_on_clock:
  "computeVelocity [Some \<lparr>x = Fin 0, y = Fin 0, time = Fin 0\<rparr>,
                    Some \<lparr>x = Fin 10, y = Fin 0, time = Fin 100\<rparr>, None] (Idx 2) (Fin 100) 100
     = Inr (\<lparr>Vx = Fin 100, Vy = Fin 0\<rparr>,
            [Some \<lparr>x = Fin 0, y = Fin 0, time = Fin 0\<rparr>,
             Some \<lparr>x = Fin 10, y = Fin 0, time = Fin 100\<rparr>,
             Some \<lparr>x = Fin 10, y = Fin 0, time = Fin 100\<rparr>]) \<and>
   computeVelocity [Some \<lparr>x = Fin 0, y = Fin 0, time = Fin 0\<rparr>,
                    Some \<lparr>x = Fin 10, y = Fin 0, time = Fin 100\<rparr>, None] (Idx 2) (Fin 100) 150
     = Inr (\<lparr>Vx = Fin 0, Vy = Fin 0\<rparr>,
            [Some \<lparr>x = Fin 0, y = Fin 0, time = Fin 0\<rparr>,
             Some \<lparr>x = Fin 10, y = Fin 0, time = Fin 100\<rparr>,
             Some \<lparr>x = Fin 10, y = Fin 0, time = Fin 150\<rparr>]) \<and>
   computeVelocity [Some \<lparr>x = Fin 0, y = Fin 0, time = Fin 48\<rparr>,
                    Some \<lparr>x = Fin 16, y = Fin 0, time = Fin 80\<rparr>, None] (Idx 2) (Fin 64) 128
     = Inr (\<lparr>Vx = Fin 125, Vy = Fin 0\<rparr>,
            [Some \<lparr>x = Fin 0, y = Fin 0, time = Fin 48\<rparr>,
             Some \<lparr>x = Fin 8, y = Fin 0, time = Fin 64\<rparr>,
             Some \<lparr>x = Fin 16, y = Fin 0, time = Fin 128\<rparr>]) \<and>
   computeVelocity [Some \<lparr>x = Fin 0, y = Fin 0, time = Fin 48\<rparr>,
                    Some \<lparr>x = Fin 8, y = Fin 0, time = Fin 64\<rparr>,
                    Some \<lparr>x = Fin 16, y = Fin 0, time = Fin 128\<rparr>] (Idx 2) (Fin 64) 128
     = Inr (\<lparr>Vx = Fin 0, Vy = Fin 0\<rparr>,
            [Some \<lparr>x = Fin 0, y = Fin 0, time = Fin 48\<rparr>,
             Some \<lparr>x = Fin 8, y = Fin 0, time = Fin 64\<rparr>,
             Some \<lparr>x = Fin 8, y = Fin 0, time = Fin 128\<rparr>])"
proof (intro conjI)
  show "computeVelocity [Some \<lparr>x = Fin 0, y = Fin 0, time = Fin 0\<rparr>,
                    Some \<lparr>x = Fin 10, y = Fin 0, time = Fin 100\<rparr>, None] (Idx 2) (Fin 100) 100
     = Inr (\<lparr>Vx = Fin 100, Vy = Fin 0\<rparr>,
            [Some \<lparr>x = Fin 0, y = Fin 0, time = Fin 0\<rparr>,
             Some \<lparr>x = Fin 10, y = Fin 0, time = Fin 100\<rparr>,
             Some \<lparr>x = Fin 10, y = Fin 0, time = Fin 100\<rparr>])"
    by (simp add: eval_defs)
  show "computeVelocity [Some \<lparr>x = Fin 0, y = Fin 0, time = Fin 0\<rparr>,
                    Some \<lparr>x = Fin 10, y = Fin 0, time = Fin 100\<rparr>, None] (Idx 2) (Fin 100) 150
     = Inr (\<lparr>Vx = Fin 0, Vy = Fin 0\<rparr>,
            [Some \<lparr>x = Fin 0, y = Fin 0, time = Fin 0\<rparr>,
             Some \<lparr>x = Fin 10, y = Fin 0, time = Fin 100\<rparr>,
             Some \<lparr>x = Fin 10, y = Fin 0, time = Fin 150\<rparr>])"
    by (simp add: eval_defs)
  show "computeVelocity [Some \<lparr>x = Fin 0, y = Fin 0, time = Fin 48\<rparr>,
                    Some \<lparr>x = Fin 16, y = Fin 0, time = Fin 80\<rparr>, None] (Idx 2) (Fin 64) 128
     = Inr (\<lparr>Vx = Fin 125, Vy = Fin 0\<rparr>,
            [Some \<lparr>x = Fin 0, y = Fin 0, time = Fin 48\<rparr>,
             Some \<lparr>x = Fin 8, y = Fin 0, time = Fin 64\<rparr>,
             Some \<lparr>x = Fin 16, y = Fin 0, time = Fin 128\<rparr>])"
    by (simp add: eval_defs)
  show "computeVelocity [Some \<lparr>x = Fin 0, y = Fin 0, time = Fin 48\<rparr>,
                    Some \<lparr>x = Fin 8, y = Fin 0, time = Fin 64\<rparr>,
                    Some \<lparr>x = Fin 16, y = Fin 0, time = Fin 128\<rparr>] (Idx 2) (Fin 64) 128
     = Inr (\<lparr>Vx = Fin 0, Vy = Fin 0\<rparr>,
            [Some \<lparr>x = Fin 0, y = Fin 0, time = Fin 48\<rparr>,
             Some \<lparr>x = Fin 8, y = Fin 0, time = Fin 64\<rparr>,
             Some \<lparr>x = Fin 8, y = Fin 0, time = Fin 128\<rparr>])"
    by (simp add: eval_defs)
qed

section \<open>The velocity formula and its sign\<close>




section \<open>Samples older than the window\<close>

text \<open>
  C5, as the code has it. Let the samples of the buffer have finite times and the window be
  non-negative. Writing a sample into an empty slot, other than the anchor's slot and the
  slot before it, does not change the velocity when the time of that sample is at least
  50 ms (the interpolation threshold) before \<open>mostrecent.time - msec\<close>.
\<close>

theorem old_sample_beyond_threshold_ignored:
  assumes "list_all (\<lambda>v. is_fin (time v)) (samples_of buffer)"
    and "m < length buffer" and "get_at buffer m = None"
    and "m \<noteq> anchor_index buffer i" and "m \<noteq> anchor_index buffer i - 1"
    and "0 \<le> w"
    and "time s = Fin ts"
    and "ts \<le> time_of (hd (sorted_samples buffer (Idx i) now)) - w - 50"
  shows "\<exists>v st st'. computeVelocity buffer (Idx i) (Fin w) now = Inr (v, st) \<and>
           computeVelocity (set_at buffer m s) (Idx i) (Fin w) now = Inr (v, st')"
proof (cases "is_array_index m")
  case False
  then have "set_at buffer m s = buffer" by simp
  with computeVelocity_total [of buffer "Idx i" "Fin w" now] show ?thesis by auto
next
  case ix: True
  show ?thesis
  proof (cases "sorted_samples buffer (Idx i) now = []")
    case True
    then have "computeVelocity buffer (Idx i) (Fin w) now =
        Inr (zero_velocity, write_anchor buffer (Idx i) now)"
      by (simp add: computeVelocity_alt)
    moreover from True assms(2,3) ix assms(4,5,7)
    have "\<exists>st. computeVelocity (set_at buffer m s) (Idx i) (Fin w) now = Inr (zero_velocity, st)"
      by (rule old_sample_alone)
    ultimately show ?thesis by blast
  next
    case False
    then obtain mr mt where p: "boundary_pair buffer (Idx i) (Fin w) now = Some (mr, mt)"
      using final_pair_Some [of "sorted_samples buffer (Idx i) now" "Fin w"]
      by (auto simp: boundary_pair_final)
    from assms(1) False assms(2,3) ix assms(4-8)
    have "boundary_pair (set_at buffer m s) (Idx i) (Fin w) now =
        boundary_pair buffer (Idx i) (Fin w) now"
      by (rule old_sample_same_pair)
    then have p': "boundary_pair (set_at buffer m s) (Idx i) (Fin w) now = Some (mr, mt)"
      by (simp add: p)
    from computeVelocity_pair [OF p] computeVelocity_pair [OF p'] show ?thesis by blast
  qed
qed

text \<open>An instance: the window edge is at 0 ms and the added sample at -60 ms.\<close>

theorem old_sample_beyond_threshold_ignored_witness:
  "\<exists>v st st'.
     computeVelocity [Some \<lparr>x = Fin 0, y = Fin 0, time = Fin 10\<rparr>,
                      Some \<lparr>x = Fin 10, y = Fin 0, time = Fin 100\<rparr>, None, None]
       (Idx 2) (Fin 100) 100 = Inr (v, st) \<and>
     computeVelocity (set_at [Some \<lparr>x = Fin 0, y = Fin 0, time = Fin 10\<rparr>,
                              Some \<lparr>x = Fin 10, y = Fin 0, time = Fin 100\<rparr>, None, None] 3
                         \<lparr>x = Fin (- 100), y = Fin 0, time = Fin (- 60)\<rparr>)
       (Idx 2) (Fin 100) 100 = Inr (v, st')"
proof -
  let ?b = "[Some \<lparr>x = Fin 0, y = Fin 0, time = Fin 10\<rparr>,
             Some \<lparr>x = Fin 10, y = Fin 0, time = Fin 100\<rparr>, None, None]"
  let ?s = "\<lparr>x = Fin (- 100), y = Fin 0, time = Fin (- 60)\<rparr>"
  have so: "samples_of ?b = [\<lparr>x = Fin 0, y = Fin 0, time = Fin 10\<rparr>,
      \<lparr>x = Fin 10, y = Fin 0, time = Fin 100\<rparr>]"
    by (simp add: samples_of_def filter_defined_def)
  have fin: "list_all (\<lambda>v. is_fin (time v)) (samples_of ?b)"
    by (simp add: so)
  have m: "3 < length ?b" "get_at ?b 3 = None"
    by (simp_all add: get_at_def)
  have ai: "anchor_index ?b 2 = 2" by (simp add: anchor_index_def)
  have ma: "3 \<noteq> anchor_index ?b 2" "3 \<noteq> anchor_index ?b 2 - 1"
    by (simp_all add: ai)
  have hd: "hd (sorted_samples ?b (Idx 2) 100) = (1, \<lparr>x = Fin 10, y = Fin 0, time = Fin 100\<rparr>)"
    by (simp add: sorted_samples_def write_anchor_def anchor_index_def anchor_sample_def
        extend_copy_def get_at_def set_at_def is_array_index_def filter_defined_def compare_time_def js_gt_def)
  have old: "- 60 \<le> time_of (hd (sorted_samples ?b (Idx 2) 100)) - 100 - 50"
    by (simp add: hd time_of_def)
  have w: "(0::real) \<le> 100" by simp
  have ts: "time ?s = Fin (- 60)" by simp
  from old_sample_beyond_threshold_ignored [OF fin m ma w ts old]
  show ?thesis .
qed

text \<open>
  C5 as stated fails: the window edge is at 0 ms and the boundary sample at 10 ms. Without
  any older sample the result is 1000/9 px/s. A sample at -10 ms written into the empty
  slot 3 is strictly older than the window, is within 50 ms of the boundary sample, and
  enters the interpolation: the result becomes 600 px/s.
\<close>

theorem old_sample_changes_result:
  "get_at [Some \<lparr>x = Fin 0, y = Fin 0, time = Fin 10\<rparr>,
           Some \<lparr>x = Fin 10, y = Fin 0, time = Fin 100\<rparr>, None, None] 3 = None \<and>
   hd (sorted_samples [Some \<lparr>x = Fin 0, y = Fin 0, time = Fin 10\<rparr>,
           Some \<lparr>x = Fin 10, y = Fin 0, time = Fin 100\<rparr>, None, None] (Idx 2) 100)
     = (1, \<lparr>x = Fin 10, y = Fin 0, time = Fin 100\<rparr>) \<and>
   js_lt (Fin (- 10)) (js_sub (Fin 100) (Fin 100)) \<and>
   computeVelocity [Some \<lparr>x = Fin 0, y = Fin 0, time = Fin 10\<rparr>,
                    Some \<lparr>x = Fin 10, y = Fin 0, time = Fin 100\<rparr>, None, None]
       (Idx 2) (Fin 100) 100
     = Inr (\<lparr>Vx = Fin (1000 / 9), Vy = Fin 0\<rparr>,
            [Some \<lparr>x = Fin 0, y = Fin 0, time = Fin 10\<rparr>,
             Some \<lparr>x = Fin 10, y = Fin 0, time = Fin 100\<rparr>,
             Some \<lparr>x = Fin 10, y = Fin 0, time = Fin 100\<rparr>, None]) \<and>
   computeVelocity (set_at [Some \<lparr>x = Fin 0, y = Fin 0, time = Fin 10\<rparr>,
                            Some \<lparr>x = Fin 10, y = Fin 0, time = Fin 100\<rparr>, None, None] 3
                       \<lparr>x = Fin (- 100), y = Fin 0, time = Fin (- 10)\<rparr>)
       (Idx 2) (Fin 100) 100
     = Inr (\<lparr>Vx = Fin 600, Vy = Fin 0\<rparr>,
            [Some \<lparr>x = Fin (- 50), y = Fin 0, time = Fin 0\<rparr>,
             Some \<lparr>x = Fin 10, y = Fin 0, time = Fin 100\<rparr>,
             Some \<lparr>x = Fin 10, y = Fin 0, time = Fin 100\<rparr>,
             Some \<lparr>x = Fin (- 100), y = Fin 0, time = Fin (- 10)\<rparr>])"
proof (intro conjI)
  let ?b = "[Some \<lparr>x = Fin 0, y = Fin 0, time = Fin 10\<rparr>,
             Some \<lparr>x = Fin 10, y = Fin 0, time = Fin 100\<rparr>, None, None]"
  show "get_at ?b 3 = None" by (simp add: get_at_def)
  show "hd (sorted_samples ?b (Idx 2) 100) = (1, \<lparr>x = Fin 10, y = Fin 0, time = Fin 100\<rparr>)"
    by (simp add: sorted_samples_def write_anchor_def anchor_index_def anchor_sample_def
        extend_copy_def get_at_def set_at_def is_array_index_def filter_defined_def compare_time_def js_gt_def)
  show "js_lt (Fin (- 10)) (js_sub (Fin 100) (Fin 100))" by simp
  show "computeVelocity ?b (Idx 2) (Fin 100) 100
     = Inr (\<lparr>Vx = Fin (1000 / 9), Vy = Fin 0\<rparr>,
            [Some \<lparr>x = Fin 0, y = Fin 0, time = Fin 10\<rparr>,
             Some \<lparr>x = Fin 10, y = Fin 0, time = Fin 100\<rparr>,
             Some \<lparr>x = Fin 10, y = Fin 0, time = Fin 100\<rparr>, None])"
    by (simp add: eval_defs)
  have "set_at ?b 3 \<lparr>x = Fin (- 100), y = Fin 0, time = Fin (- 10)\<rparr> =
      [Some \<lparr>x = Fin 0, y = Fin 0, time = Fin 10\<rparr>,
       Some \<lparr>x = Fin 10, y = Fin 0, time = Fin 100\<rparr>, None,
       Some \<lparr>x = Fin (- 100), y = Fin 0, time = Fin (- 10)\<rparr>]"
    by (simp add: set_at_def is_array_index_def)
  then show "computeVelocity (set_at ?b 3 \<lparr>x = Fin (- 100), y = Fin 0, time = Fin (- 10)\<rparr>)
       (Idx 2) (Fin 100) 100
     = Inr (\<lparr>Vx = Fin 600, Vy = Fin 0\<rparr>,
            [Some \<lparr>x = Fin (- 50), y = Fin 0, time = Fin 0\<rparr>,
             Some \<lparr>x = Fin 10, y = Fin 0, time = Fin 100\<rparr>,
             Some \<lparr>x = Fin 10, y = Fin 0, time = Fin 100\<rparr>,
             Some \<lparr>x = Fin (- 100), y = Fin 0, time = Fin (- 10)\<rparr>])"
    by (simp add: eval_defs)
qed

end
